theory Spec2Isabelle
  imports Main "HOL-Library.Char_ord" "HOL-Library.Multiset"
begin

section \<open>Python values, strings and errors\<close>

text \<open>
  The module \<^verbatim>\<open>cisco_sdwan/base/models_base.py\<close> is embedded function by function.
  A Python \<^verbatim>\<open>str\<close> is a \<^typ>\<open>string\<close>: one \<^typ>\<open>char\<close> per code point, so the
  embedding covers the code points U+0000 to U+00FF. An exception is a value of
  \<open>py_error\<close>, and a function that can raise returns \<open>py_error + 'a\<close>.
  \<open>NotModelled\<close> marks library behaviour that the embedding leaves out (it is
  named wherever it is produced); no statement below draws a conclusion from it.
\<close>

datatype py_error =
    KeyError
  | TypeError
  | ValueError
  | IndexError
  | AttributeError
  | RegexError
  | JSONDecodeError
  | FileNotFoundError
  | FileExistsError
  | NotADirectoryError
  | IsADirectoryError
  | NotModelled

text \<open>
  A payload is what \<^verbatim>\<open>json.load\<close> produces: \<^verbatim>\<open>None\<close>, a bool, an int, a str, a list,
  or a dict with str keys (kept in insertion order). Floats are not modelled.
\<close>

datatype json =
    JNull
  | JBool bool
  | JInt int
  | JStr string
  | JArr "json list"
  | JObj "(string \<times> json) list"

definition ord :: "char \<Rightarrow> nat" where
  "ord c = of_char c"

definition bind :: "py_error + 'a \<Rightarrow> ('a \<Rightarrow> py_error + 'b) \<Rightarrow> py_error + 'b" where
  "bind r f = (case r of Inl e \<Rightarrow> Inl e | Inr v \<Rightarrow> f v)"

subsection \<open>Decimal text of integers\<close>

definition digit_char :: "nat \<Rightarrow> char" where
  "digit_char d = ''0123456789'' ! d"

function str_of_nat :: "nat \<Rightarrow> string" where
  "str_of_nat n = (if n < 10 then [digit_char n] else str_of_nat (n div 10) @ [digit_char (n mod 10)])"
  by pat_completeness auto
termination
  by (relation "measure id") auto

declare str_of_nat.simps [simp del]

definition str_of_int :: "int \<Rightarrow> string" where
  "str_of_int i = (if i < 0 then CHR ''-'' # str_of_nat (nat (- i)) else str_of_nat (nat i))"

subsection \<open>Character classes of \<^verbatim>\<open>re\<close> on str patterns\<close>

text \<open>
  \<^verbatim>\<open>\s\<close> and \<^verbatim>\<open>\w\<close> are the Unicode classes, here on U+0000 to U+00FF:
  whitespace is TAB to CR, FS to US, space, NEL and NBSP; a word character is
  alphanumeric (by \<^verbatim>\<open>str.isalnum\<close>) or the underscore.
\<close>

definition re_space :: "char \<Rightarrow> bool" where
  "re_space c = (let n = ord c in
     (9 \<le> n \<and> n \<le> 13) \<or> (28 \<le> n \<and> n \<le> 32) \<or> n = 133 \<or> n = 160)"

definition re_word :: "char \<Rightarrow> bool" where
  "re_word c = (let n = ord c in
     (48 \<le> n \<and> n \<le> 57) \<or> (65 \<le> n \<and> n \<le> 90) \<or> n = 95 \<or> (97 \<le> n \<and> n \<le> 122) \<or>
     n = 170 \<or> n = 178 \<or> n = 179 \<or> n = 181 \<or> n = 185 \<or> n = 186 \<or>
     (188 \<le> n \<and> n \<le> 190) \<or> (192 \<le> n \<and> n \<le> 214) \<or> (216 \<le> n \<and> n \<le> 246) \<or>
     (248 \<le> n \<and> n \<le> 255))"

text \<open>\<^verbatim>\<open>str.lower\<close>, one code point at a time.\<close>

definition chr_lower :: "char \<Rightarrow> char" where
  "chr_lower c = (let n = ord c in
     if (65 \<le> n \<and> n \<le> 90) \<or> (192 \<le> n \<and> n \<le> 214) \<or> (216 \<le> n \<and> n \<le> 222)
     then char_of (n + 32) else c)"

definition str_lower :: "string \<Rightarrow> string" where
  "str_lower s = map chr_lower s"

section \<open>filename\_safe\<close>

text \<open>
  \<^verbatim>\<open>cleaned = re.sub(r'[^\w\s-]', '_', name)\<close>: the pattern matches one character at
  a time, so the substitution is a map over the characters.
\<close>

definition filename_safe :: "string \<Rightarrow> bool \<Rightarrow> string" where
  "filename_safe name lower =
     (let cleaned = map (\<lambda>c. if re_word c \<or> re_space c \<or> c = CHR ''-'' then c else CHR ''_'') name
      in if lower then str_lower cleaned else cleaned)"

text \<open>The character set named by the docstring of \<^verbatim>\<open>filename_safe\<close>: a-z, A-Z, 0-9, underscore, space, hyphen.\<close>

definition docstring_safe_char :: "char \<Rightarrow> bool" where
  "docstring_safe_char c = (let n = ord c in
     (97 \<le> n \<and> n \<le> 122) \<or> (65 \<le> n \<and> n \<le> 90) \<or> (48 \<le> n \<and> n \<le> 57) \<or>
     c = CHR ''_'' \<or> c = CHR '' '' \<or> c = CHR ''-'')"

section \<open>ApiPath\<close>

text \<open>
  An API path is a str or \<^verbatim>\<open>None\<close>. The object has the four slots of
  \<^verbatim>\<open>__slots__\<close>; a slot holds nothing until it is assigned.
\<close>

type_synonym url = "string option"

datatype 'a slot = Unset | Assigned 'a

record ApiPath =
  get_op :: "url slot"
  post_op :: "url slot"
  put_op :: "url slot"
  delete_op :: "url slot"

definition slots :: "string list" where
  "slots = [''get'', ''post'', ''put'', ''delete'']"

text \<open>\<^verbatim>\<open>itertools.zip_longest(xs, ys, fillvalue=fill)\<close>.\<close>

fun zip_longest :: "'a list \<Rightarrow> 'a list \<Rightarrow> 'a \<Rightarrow> ('a \<times> 'a) list" where
  "zip_longest [] [] fill = []"
| "zip_longest (x # xs) [] fill = (x, fill) # zip_longest xs [] fill"
| "zip_longest [] (y # ys) fill = (fill, y) # zip_longest [] ys fill"
| "zip_longest (x # xs) (y # ys) fill = (x, y) # zip_longest xs ys fill"

text \<open>
  \<^verbatim>\<open>setattr(self, field, value)\<close> on an object with \<^verbatim>\<open>__slots__\<close>: a name that is
  not a str is a TypeError, a name outside the slots an AttributeError.
\<close>

definition setattr :: "ApiPath \<Rightarrow> url \<Rightarrow> url \<Rightarrow> py_error + ApiPath" where
  "setattr self field v =
     (case field of
        None \<Rightarrow> Inl TypeError
      | Some f \<Rightarrow>
          if f = ''get'' then Inr (self\<lparr>get_op := Assigned v\<rparr>)
          else if f = ''post'' then Inr (self\<lparr>post_op := Assigned v\<rparr>)
          else if f = ''put'' then Inr (self\<lparr>put_op := Assigned v\<rparr>)
          else if f = ''delete'' then Inr (self\<lparr>delete_op := Assigned v\<rparr>)
          else Inl AttributeError)"

fun setattr_loop :: "ApiPath \<Rightarrow> (url \<times> url) list \<Rightarrow> py_error + ApiPath" where
  "setattr_loop self [] = Inr self"
| "setattr_loop self ((field, v) # rest) =
     (case setattr self field v of Inl e \<Rightarrow> Inl e | Inr self' \<Rightarrow> setattr_loop self' rest)"

definition ApiPath_init :: "url \<Rightarrow> url list \<Rightarrow> py_error + ApiPath" where
  "ApiPath_init get other_ops =
     (let self = \<lparr>get_op = Assigned get, post_op = Unset, put_op = Unset, delete_op = Unset\<rparr>;
          last_op = (if other_ops \<noteq> [] then last other_ops else get)
      in setattr_loop self (zip_longest (map Some (tl slots)) other_ops last_op))"

section \<open>ServerInfo\<close>

text \<open>
  \<^verbatim>\<open>self.data\<close> is the dict of keyword arguments; \<^verbatim>\<open>dict.get(key)\<close> gives \<^verbatim>\<open>None\<close> for
  a key that is not there.
\<close>

definition dict_get :: "(string \<times> json) list \<Rightarrow> string \<Rightarrow> json" where
  "dict_get d k = (case map_of d k of None \<Rightarrow> JNull | Some v \<Rightarrow> v)"

definition ServerInfo_getattr :: "(string \<times> json) list \<Rightarrow> string \<Rightarrow> py_error + json" where
  "ServerInfo_getattr data item =
     (let attr = dict_get data item
      in if attr = JNull then Inl AttributeError else Inr attr)"

text \<open>
  Attribute access \<^verbatim>\<open>info.item\<close>. Python looks the name up in the instance and in
  the class first, and calls \<^verbatim>\<open>__getattr__\<close> only when that lookup finds nothing. The
  instance holds \<^verbatim>\<open>data\<close> (set by \<^verbatim>\<open>__init__\<close>); the class body defines \<^verbatim>\<open>root_dir\<close>,
  \<^verbatim>\<open>store_file\<close>, \<^verbatim>\<open>__init__\<close>, \<^verbatim>\<open>__getattr__\<close>, \<^verbatim>\<open>load\<close> and \<^verbatim>\<open>save\<close>; the class statement
  adds \<^verbatim>\<open>__module__\<close>, \<^verbatim>\<open>__dict__\<close>, \<^verbatim>\<open>__weakref__\<close> and \<^verbatim>\<open>__doc__\<close>, and the rest comes
  from \<^verbatim>\<open>object\<close> (the names of CPython 3.11).
\<close>

datatype attribute =
    Stored json
  | InstanceData "(string \<times> json) list"
  | ClassAttribute string

definition class_names :: "string list" where
  "class_names = [''root_dir'', ''store_file'', ''__init__'', ''__getattr__'', ''load'', ''save'',
     ''__module__'', ''__dict__'', ''__weakref__'', ''__doc__'']"

definition object_names :: "string list" where
  "object_names = [''__class__'', ''__delattr__'', ''__dir__'', ''__eq__'', ''__format__'', ''__ge__'',
     ''__getattribute__'', ''__getstate__'', ''__gt__'', ''__hash__'', ''__init_subclass__'', ''__le__'',
     ''__lt__'', ''__ne__'', ''__new__'', ''__reduce__'', ''__reduce_ex__'', ''__repr__'',
     ''__setattr__'', ''__sizeof__'', ''__str__'', ''__subclasshook__'']"

definition regular_lookup :: "(string \<times> json) list \<Rightarrow> string \<Rightarrow> attribute option" where
  "regular_lookup data item =
     (if item = ''data'' then Some (InstanceData data)
      else if item \<in> set class_names \<or> item \<in> set object_names then Some (ClassAttribute item)
      else None)"

definition ServerInfo_attribute :: "(string \<times> json) list \<Rightarrow> string \<Rightarrow> py_error + attribute" where
  "ServerInfo_attribute data item =
     (case regular_lookup data item of
        Some a \<Rightarrow> Inr a
      | None \<Rightarrow> bind (ServerInfo_getattr data item) (\<lambda>attr. Inr (Stored attr)))"

section \<open>str.format with keyword arguments\<close>

text \<open>
  \<^verbatim>\<open>template.format(**kwargs)\<close>, read from CPython's \<^verbatim>\<open>MarkupIterator\<close>: text is
  copied, \<^verbatim>\<open>{{\<close> and \<^verbatim>\<open>}}\<close> are the escaped braces, a single \<^verbatim>\<open>}\<close> and an
  unfinished field are a ValueError, a field \<^verbatim>\<open>{key}\<close> is replaced by the formatted
  value of the keyword \<^verbatim>\<open>key\<close> (KeyError when there is none), and a field whose name
  is empty or a number asks for a positional argument, of which there are none
  (IndexError). Not modelled: a field with a conversion (\<^verbatim>\<open>!\<close>), a format
  specification (\<^verbatim>\<open>:\<close>), an attribute or an index (\<^verbatim>\<open>.\<close>, \<^verbatim>\<open>[\<close>), a number of more
  than 18 digits, and the text Python prints for a list or a dict.
\<close>

definition py_format_value :: "json \<Rightarrow> py_error + string" where
  "py_format_value v =
     (case v of
        JNull \<Rightarrow> Inr ''None''
      | JBool b \<Rightarrow> Inr (if b then ''True'' else ''False'')
      | JInt i \<Rightarrow> Inr (str_of_int i)
      | JStr s \<Rightarrow> Inr s
      | JArr xs \<Rightarrow> Inl NotModelled
      | JObj kvs \<Rightarrow> Inl NotModelled)"

definition is_digit :: "char \<Rightarrow> bool" where
  "is_digit c = (48 \<le> ord c \<and> ord c \<le> 57)"

definition format_field :: "(string \<times> json) list \<Rightarrow> string \<Rightarrow> py_error + string" where
  "format_field kwargs field_name =
     (let first = takeWhile (\<lambda>c. c \<noteq> CHR ''.'') field_name
      in if list_all is_digit first
         then (if length first \<le> 18 then Inl IndexError else Inl NotModelled)
         else (case map_of kwargs first of
                 None \<Rightarrow> Inl KeyError
               | Some v \<Rightarrow> if first = field_name then py_format_value v else Inl NotModelled))"

text \<open>
  The second argument is the field name read so far: \<open>None\<close> while in literal
  text, \<open>Some acc\<close> (reversed) inside a field.
\<close>

fun format_go :: "(string \<times> json) list \<Rightarrow> string option \<Rightarrow> string \<Rightarrow> py_error + string" where
  "format_go kwargs None [] = Inr []"
| "format_go kwargs None (c # cs) =
     (if c = CHR ''}'' then
        (case cs of
           [] \<Rightarrow> Inl ValueError
         | d # rest \<Rightarrow>
             if d = CHR ''}'' then bind (format_go kwargs None rest) (\<lambda>out. Inr (CHR ''}'' # out))
             else Inl ValueError)
      else if c = CHR ''{'' then
        (case cs of
           [] \<Rightarrow> Inl ValueError
         | d # rest \<Rightarrow>
             if d = CHR ''{'' then bind (format_go kwargs None rest) (\<lambda>out. Inr (CHR ''{'' # out))
             else format_go kwargs (Some []) cs)
      else bind (format_go kwargs None cs) (\<lambda>out. Inr (c # out)))"
| "format_go kwargs (Some acc) [] = Inl ValueError"
| "format_go kwargs (Some acc) (c # cs) =
     (if c = CHR ''{'' then Inl ValueError
      else if c = CHR ''['' \<or> c = CHR '':'' \<or> c = CHR ''!'' then Inl NotModelled
      else if c = CHR ''}'' then
        bind (format_field kwargs (rev acc)) (\<lambda>text.
        bind (format_go kwargs None cs) (\<lambda>out. Inr (text @ out)))
      else format_go kwargs (Some (c # acc)) cs)"

definition str_format :: "string \<Rightarrow> (string \<times> json) list \<Rightarrow> py_error + string" where
  "str_format template kwargs = format_go kwargs None template"

section \<open>ConfigItem\<close>

text \<open>
  The class attributes that the embedded methods read. A subclass sets them; in
  \<^verbatim>\<open>ConfigItem\<close> itself \<^verbatim>\<open>store_path\<close>, \<^verbatim>\<open>store_file\<close>, \<^verbatim>\<open>id_tag\<close> and \<^verbatim>\<open>name_tag\<close>
  are \<^verbatim>\<open>None\<close>.
\<close>

record config =
  store_path :: "string list option"
  store_file :: "string option"
  root_dir :: string
  id_tag :: "string option"
  name_tag :: "string option"
  skip_cmp_tag_set :: "string set"

subsection \<open>get\_filename\<close>

definition get_filename :: "config \<Rightarrow> bool \<Rightarrow> string option \<Rightarrow> string option \<Rightarrow> py_error + string option" where
  "get_filename cls ext_name item_name item_id =
     (if item_name = None \<or> item_id = None then Inr (store_file cls)
      else
        bind (if \<not> ext_name then Inr (filename_safe (the item_name) False)
              else str_format ''{name}_{uuid}''
                     [(''name'', JStr (filename_safe (the item_name) False)), (''uuid'', JStr (the item_id))])
          (\<lambda>safe_name.
             case store_file cls of
               None \<Rightarrow> Inl AttributeError
             | Some template \<Rightarrow>
                 bind (str_format template [(''item_name'', JStr safe_name), (''item_id'', JStr (the item_id))])
                   (\<lambda>filename. Inr (Some filename))))"

section \<open>json.dumps\<close>

text \<open>
  \<^verbatim>\<open>json.dumps(obj)\<close> with the defaults: separators \<^verbatim>\<open>', '\<close> and \<^verbatim>\<open>': '\<close>, and
  \<^verbatim>\<open>ensure_ascii\<close>, so that a character outside U+0020 to U+007E is written as an
  escape.
\<close>

definition hex_digit :: "nat \<Rightarrow> char" where
  "hex_digit d = ''0123456789abcdef'' ! d"

definition escape_char :: "char \<Rightarrow> string" where
  "escape_char c =
     (if c = CHR 0x22 then [CHR 0x5C, CHR 0x22]
      else if c = CHR 0x5C then [CHR 0x5C, CHR 0x5C]
      else if c = CHR 0x0A then [CHR 0x5C, CHR ''n'']
      else if c = CHR 0x0D then [CHR 0x5C, CHR ''r'']
      else if c = CHR 0x09 then [CHR 0x5C, CHR ''t'']
      else if c = CHR 0x08 then [CHR 0x5C, CHR ''b'']
      else if c = CHR 0x0C then [CHR 0x5C, CHR ''f'']
      else if 32 \<le> ord c \<and> ord c \<le> 126 then [c]
      else [CHR 0x5C, CHR ''u'', CHR ''0'', CHR ''0'', hex_digit (ord c div 16), hex_digit (ord c mod 16)])"

definition encode_str :: "string \<Rightarrow> string" where
  "encode_str s = CHR 0x22 # concat (map escape_char s) @ [CHR 0x22]"

text \<open>\<^verbatim>\<open>sep.join(parts)\<close>.\<close>

fun join :: "'a list \<Rightarrow> 'a list list \<Rightarrow> 'a list" where
  "join sep [] = []"
| "join sep [x] = x"
| "join sep (x # y # ys) = x @ sep @ join sep (y # ys)"

fun json_dumps :: "json \<Rightarrow> string" where
  "json_dumps JNull = ''null''"
| "json_dumps (JBool b) = (if b then ''true'' else ''false'')"
| "json_dumps (JInt i) = str_of_int i"
| "json_dumps (JStr s) = encode_str s"
| "json_dumps (JArr xs) = ''['' @ join '', '' (map json_dumps xs) @ '']''"
| "json_dumps (JObj kvs) =
     ''{'' @ join '', '' (map (\<lambda>kv. encode_str (fst kv) @ '': '' @ json_dumps (snd kv)) kvs) @ ''}''"

text \<open>
  \<^verbatim>\<open>json.dump(obj, f, indent=2)\<close>: the text written to the file. The first argument is
  the nesting level.
\<close>

definition newline_indent :: "nat \<Rightarrow> string" where
  "newline_indent level = CHR 0x0A # replicate (2 * level) CHR '' ''"

fun json_dump_indent :: "nat \<Rightarrow> json \<Rightarrow> string" where
  "json_dump_indent level JNull = ''null''"
| "json_dump_indent level (JBool b) = (if b then ''true'' else ''false'')"
| "json_dump_indent level (JInt i) = str_of_int i"
| "json_dump_indent level (JStr s) = encode_str s"
| "json_dump_indent level (JArr xs) =
     (if xs = [] then ''[]''
      else ''['' @ newline_indent (Suc level) @
           join ('','' @ newline_indent (Suc level)) (map (json_dump_indent (Suc level)) xs) @
           newline_indent level @ '']'')"
| "json_dump_indent level (JObj kvs) =
     (if kvs = [] then ''{}''
      else ''{'' @ newline_indent (Suc level) @
           join ('','' @ newline_indent (Suc level))
             (map (\<lambda>kv. encode_str (fst kv) @ '': '' @ json_dump_indent (Suc level) (snd kv)) kvs) @
           newline_indent level @ ''}'')"

subsection \<open>is\_equal\<close>

text \<open>\<^verbatim>\<open>payload.items()\<close>: only a dict has the method.\<close>

definition dict_items :: "json \<Rightarrow> py_error + (string \<times> json) list" where
  "dict_items payload = (case payload of JObj kvs \<Rightarrow> Inr kvs | _ \<Rightarrow> Inl AttributeError)"

definition is_equal :: "config \<Rightarrow> json \<Rightarrow> json \<Rightarrow> py_error + bool" where
  "is_equal cls data other =
     bind (dict_items data) (\<lambda>local_items.
     let local_cmp_dict = filter (\<lambda>(k, v). k \<notin> skip_cmp_tag_set cls \<union> set_option (id_tag cls)) local_items
     in bind (dict_items other) (\<lambda>other_items.
     let other_cmp_dict = filter (\<lambda>(k, v). k \<notin> skip_cmp_tag_set cls \<union> set_option (id_tag cls)) other_items
     in Inr (sort (json_dumps (JObj local_cmp_dict)) = sort (json_dumps (JObj other_cmp_dict)))))"

text \<open>
  The claim's words, for comparison: the payload with the identifier field and the
  excluded fields removed at the top level.
\<close>

definition stripped :: "config \<Rightarrow> (string \<times> json) list \<Rightarrow> json" where
  "stripped cls kvs = JObj [kv \<leftarrow> kvs. Some (fst kv) \<noteq> id_tag cls \<and> fst kv \<notin> skip_cmp_tag_set cls]"

subsection \<open>The file store\<close>

text \<open>
  A path is the list of its components, relative to the working directory (the empty
  path, always a directory); the strings that the code joins into a path are taken as
  one component each. The file system maps a path to what is there. Permissions,
  links and the other causes of an OSError are not modelled.
\<close>

type_synonym path = "string list"

datatype node = Dir | File string

type_synonym filesystem = "path \<Rightarrow> node option"

definition is_file :: "filesystem \<Rightarrow> path \<Rightarrow> bool" where
  "is_file fs p = (case fs p of Some (File content) \<Rightarrow> True | _ \<Rightarrow> False)"

definition is_dir :: "filesystem \<Rightarrow> path \<Rightarrow> bool" where
  "is_dir fs p = (p = [] \<or> fs p = Some Dir)"

definition ancestors :: "path \<Rightarrow> path list" where
  "ancestors p = map (\<lambda>n. take n p) [1..<length p]"

text \<open>
  \<^verbatim>\<open>dir_path.mkdir(parents=True, exist_ok=True)\<close>: a file on the way is an error and
  nothing is created; otherwise every missing directory down to the path is created.
\<close>

definition mkdir_parents :: "filesystem \<Rightarrow> path \<Rightarrow> py_error + filesystem" where
  "mkdir_parents fs p =
     (if list_ex (is_file fs) (ancestors p) then Inl NotADirectoryError
      else if is_file fs p then Inl FileExistsError
      else Inr (\<lambda>q. if q \<in> set (ancestors p @ [p]) \<and> q \<noteq> [] \<and> fs q = None then Some Dir else fs q))"

text \<open>\<^verbatim>\<open>open(file_path, 'w')\<close>, the write and the close: the file is created or replaced.\<close>

definition write_file :: "filesystem \<Rightarrow> path \<Rightarrow> string \<Rightarrow> py_error + filesystem" where
  "write_file fs p content =
     (if fs p = Some Dir \<or> p = [] then Inl IsADirectoryError
      else if is_dir fs (butlast p) then Inr (fs(p \<mapsto> File content))
      else if is_file fs (butlast p) then Inl NotADirectoryError
      else Inl FileNotFoundError)"

subsection \<open>is\_empty and save\<close>

text \<open>\<^verbatim>\<open>len(self.data)\<close> is a TypeError on a bool or an int.\<close>

definition is_empty :: "json \<Rightarrow> py_error + bool" where
  "is_empty data =
     (case data of
        JNull \<Rightarrow> Inr True
      | JBool b \<Rightarrow> Inl TypeError
      | JInt i \<Rightarrow> Inl TypeError
      | JStr s \<Rightarrow> Inr (length s = 0)
      | JArr xs \<Rightarrow> Inr (length xs = 0)
      | JObj kvs \<Rightarrow> Inr (length kvs = 0))"

text \<open>
  \<^verbatim>\<open>save\<close> returns its outcome and the file system it leaves: directories made before
  a later step raises stay.
\<close>

definition save :: "config \<Rightarrow> json \<Rightarrow> filesystem \<Rightarrow> string \<Rightarrow> bool \<Rightarrow> string option \<Rightarrow> string option
    \<Rightarrow> (py_error + bool) \<times> filesystem" where
  "save cls data fs node_dir ext_name item_name item_id =
     (case is_empty data of
        Inl e \<Rightarrow> (Inl e, fs)
      | Inr True \<Rightarrow> (Inr False, fs)
      | Inr False \<Rightarrow>
          (case store_path cls of
             None \<Rightarrow> (Inl TypeError, fs)
           | Some segments \<Rightarrow>
               let dir_path = [root_dir cls, node_dir] @ segments
               in (case mkdir_parents fs dir_path of
                     Inl e \<Rightarrow> (Inl e, fs)
                   | Inr fs1 \<Rightarrow>
                       (case get_filename cls ext_name item_name item_id of
                          Inl e \<Rightarrow> (Inl e, fs1)
                        | Inr None \<Rightarrow> (Inl TypeError, fs1)
                        | Inr (Some filename) \<Rightarrow>
                            (case write_file fs1 (dir_path @ [filename]) (json_dump_indent 0 data) of
                               Inl e \<Rightarrow> (Inl e, fs1)
                             | Inr fs2 \<Rightarrow> (Inr True, fs2))))))"

section \<open>ExtendedTemplate\<close>

subsection \<open>The template pattern\<close>

text \<open>
  \<^verbatim>\<open>template_pattern = re.compile(r'{name(?:\s+(?P<regex>.*?))?\}')\<close>. At a position
  of the template the pattern matches when \<^verbatim>\<open>{name\<close> stands there, followed either
  by \<^verbatim>\<open>}\<close> at once (no regex group), or by whitespace and then the shortest run of
  characters other than a line feed that ends before a \<^verbatim>\<open>}\<close> (the regex group).
  Giving back whitespace to the lazy run never helps: the run would have to cross
  the same characters. \<open>match_placeholder\<close> returns the regex group and what
  follows the match.
\<close>

definition scan_regex :: "string \<Rightarrow> (string \<times> string) option" where
  "scan_regex u =
     (let pre = takeWhile (\<lambda>c. c \<noteq> CHR ''}'' \<and> c \<noteq> CHR 0x0A) u;
          post = dropWhile (\<lambda>c. c \<noteq> CHR ''}'' \<and> c \<noteq> CHR 0x0A) u
      in case post of
           [] \<Rightarrow> None
         | c # rest \<Rightarrow> if c = CHR ''}'' then Some (pre, rest) else None)"

definition match_placeholder :: "string \<Rightarrow> (string option \<times> string) option" where
  "match_placeholder s =
     (if take 5 s = ''{name'' then
        (let t = drop 5 s; w = takeWhile re_space t; u = dropWhile re_space t
         in if w \<noteq> [] then
              (case scan_regex u of
                 None \<Rightarrow> None
               | Some (regex, rest) \<Rightarrow> Some (Some regex, rest))
            else
              (case t of
                 [] \<Rightarrow> None
               | c # rest \<Rightarrow> if c = CHR ''}'' then Some (None, rest) else None))
      else None)"

lemma scan_regex_shorter: "scan_regex u = Some (regex, rest) \<Longrightarrow> length rest < length u"
proof -
  assume a: "scan_regex u = Some (regex, rest)"
  let ?P = "\<lambda>c. c \<noteq> CHR ''}'' \<and> c \<noteq> CHR 0x0A"
  from a obtain c where "dropWhile ?P u = c # rest"
    by (auto simp: scan_regex_def Let_def split: list.splits if_splits)
  then have "length (dropWhile ?P u) = Suc (length rest)" by simp
  moreover have "length (dropWhile ?P u) \<le> length u" by (rule length_dropWhile_le)
  ultimately show ?thesis by simp
qed

lemma match_placeholder_shorter:
  "match_placeholder s = Some (regex, rest) \<Longrightarrow> length rest < length s"
proof -
  assume a: "match_placeholder s = Some (regex, rest)"
  show ?thesis
  proof (cases "takeWhile re_space (drop 5 s) \<noteq> []")
    case True
    with a obtain r where "scan_regex (dropWhile re_space (drop 5 s)) = Some (r, rest)"
      by (auto simp: match_placeholder_def Let_def split: if_splits option.splits)
    then have "length rest < length (dropWhile re_space (drop 5 s))"
      by (rule scan_regex_shorter)
    moreover have "length (dropWhile re_space (drop 5 s)) \<le> length (drop 5 s)"
      by (rule length_dropWhile_le)
    ultimately show ?thesis by simp
  next
    case False
    with a obtain c where "drop 5 s = c # rest"
      by (auto simp: match_placeholder_def Let_def split: if_splits list.splits)
    then have "length (drop 5 s) = Suc (length rest)" by simp
    then show ?thesis by simp
  qed
qed

text \<open>
  \<^verbatim>\<open>template_pattern.subn(regex_replace, self.src_template)\<close> scans the template from
  the left; the matches do not depend on what the callback returns, so the scan is
  kept apart from the callbacks: it cuts the template into the characters outside
  the matches and the matches, in order.
\<close>

datatype token = Literal char | Placeholder "string option"

function template_tokens :: "string \<Rightarrow> token list" where
  "template_tokens [] = []"
| "template_tokens (c # cs) =
     (case match_placeholder (c # cs) of
        Some (regex, rest) \<Rightarrow> Placeholder regex # template_tokens rest
      | None \<Rightarrow> Literal c # template_tokens cs)"
  by pat_completeness auto
termination
  by (relation "measure length") (auto dest: match_placeholder_shorter)

subsection \<open>The regular expressions of the user\<close>

text \<open>
  The regex attached to a placeholder is any pattern of Python's \<^verbatim>\<open>re\<close>. The library
  is a parameter of the embedding: \<open>re_compile\<close> is \<^verbatim>\<open>re.compile\<close> (raising
  \<^verbatim>\<open>re.error\<close> on a pattern that does not compile), \<open>re_groups\<close> is the attribute
  \<^verbatim>\<open>groups\<close> of the compiled pattern, and \<open>re_subn p repl s\<close> is
  \<^verbatim>\<open>p.subn(repl, s)\<close>.
\<close>

record 'p re_engine =
  re_compile :: "string \<Rightarrow> py_error + 'p"
  re_groups :: "'p \<Rightarrow> nat"
  re_subn :: "'p \<Rightarrow> string \<Rightarrow> string \<Rightarrow> py_error + (string \<times> nat)"

subsection \<open>The call\<close>

text \<open>
  \<^verbatim>\<open>''.join(f'\\{group+1}' for group in range(regex_p.groups))\<close>: the replacement
  template that names every group in turn.
\<close>

definition groups_template :: "nat \<Rightarrow> string" where
  "groups_template n = concat (map (\<lambda>group. CHR 0x5C # str_of_nat (group + 1)) [0..<n])"

text \<open>
  \<open>regex_replace\<close> is the callback: it takes the regex group of the match and the
  label map so far, and returns the text put in place of the match and the label map
  with the new label. \<open>name\<close> is the value of the name field, a str as a rule.
\<close>

definition regex_replace :: "'p re_engine \<Rightarrow> json \<Rightarrow> string option \<Rightarrow> (string \<times> json) list
    \<Rightarrow> py_error + (string \<times> (string \<times> json) list)" where
  "regex_replace re name regex label_value_map =
     bind (case regex of
             Some pattern \<Rightarrow>
               bind (re_compile re pattern) (\<lambda>regex_p.
                 if re_groups re regex_p = 0 then Inl KeyError
                 else (case name of
                         JStr s \<Rightarrow>
                           bind (re_subn re regex_p (groups_template (re_groups re regex_p)) s)
                             (\<lambda>(v, regex_p_subs). Inr (JStr (if regex_p_subs \<noteq> 0 then v else [])))
                       | _ \<Rightarrow> Inl TypeError))
           | None \<Rightarrow> Inr name)
       (\<lambda>new_value.
          let label = ''name_'' @ str_of_nat (length label_value_map)
          in Inr (''{'' @ label @ ''}'', label_value_map @ [(label, new_value)]))"

text \<open>
  The substitution: every match is replaced by what the callback returns, the first
  exception of a callback ends it. The result is the new template, the number of
  matches and the label map.
\<close>

fun subn_tokens :: "'p re_engine \<Rightarrow> json \<Rightarrow> token list \<Rightarrow> (string \<times> json) list
    \<Rightarrow> py_error + (string \<times> nat \<times> (string \<times> json) list)" where
  "subn_tokens re name [] label_value_map = Inr ([], 0, label_value_map)"
| "subn_tokens re name (Literal c # ts) label_value_map =
     bind (subn_tokens re name ts label_value_map) (\<lambda>(out, n, m). Inr (c # out, n, m))"
| "subn_tokens re name (Placeholder regex # ts) label_value_map =
     bind (regex_replace re name regex label_value_map) (\<lambda>(text, m1).
     bind (subn_tokens re name ts m1) (\<lambda>(out, n, m). Inr (text @ out, Suc n, m)))"

definition ExtendedTemplate_call :: "'p re_engine \<Rightarrow> string \<Rightarrow> json \<Rightarrow> py_error + string" where
  "ExtendedTemplate_call re src_template name =
     bind (subn_tokens re name (template_tokens src_template) []) (\<lambda>(template, name_p_subs, label_value_map).
       if name_p_subs = 0 then Inl KeyError
       else str_format template label_value_map)"

subsection \<open>get\_new\_name\<close>

text \<open>
  \<^verbatim>\<open>name_check_regex = re.compile(r'(?=^.{1,128}$)[^&<>! "]+$')\<close>, used through
  \<^verbatim>\<open>search\<close>. \<^verbatim>\<open>$\<close> holds at the end of the string and before a line feed that ends
  it; \<^verbatim>\<open>.\<close> is every character but the line feed; \<^verbatim>\<open>^\<close> holds at position 0 only.
\<close>

definition at_dollar :: "string \<Rightarrow> nat \<Rightarrow> bool" where
  "at_dollar s i = (i = length s \<or> (Suc i = length s \<and> s ! i = CHR 0x0A))"

definition name_check_excluded :: "char set" where
  "name_check_excluded = {CHR ''&'', CHR ''<'', CHR ''>'', CHR ''!'', CHR '' '', CHR 0x22}"

definition name_check_match_at :: "string \<Rightarrow> nat \<Rightarrow> bool" where
  "name_check_match_at s i =
     ((i = 0 \<and>
       list_ex (\<lambda>n. i + n \<le> length s \<and> list_all (\<lambda>c. c \<noteq> CHR 0x0A) (take n (drop i s)) \<and> at_dollar s (i + n))
         [1..<129]) \<and>
      list_ex (\<lambda>k. list_all (\<lambda>c. c \<notin> name_check_excluded) (take k (drop i s)) \<and> at_dollar s (i + k))
        [1..<Suc (length s - i)])"

definition name_check_search :: "string \<Rightarrow> bool" where
  "name_check_search s = list_ex (name_check_match_at s) [0..<Suc (length s)]"

text \<open>\<^verbatim>\<open>self.data[self.name_tag]\<close>: a subscript with a str or \<^verbatim>\<open>None\<close>.\<close>

definition subscript :: "json \<Rightarrow> string option \<Rightarrow> py_error + json" where
  "subscript data key =
     (case data of
        JObj kvs \<Rightarrow>
          (case key of
             None \<Rightarrow> Inl KeyError
           | Some k \<Rightarrow> (case map_of kvs k of None \<Rightarrow> Inl KeyError | Some v \<Rightarrow> Inr v))
      | _ \<Rightarrow> Inl TypeError)"

definition get_new_name :: "config \<Rightarrow> 'p re_engine \<Rightarrow> json \<Rightarrow> string \<Rightarrow> py_error + (string option \<times> bool)" where
  "get_new_name cls re data name_template =
     (case bind (subscript data (name_tag cls)) (ExtendedTemplate_call re name_template) of
        Inl KeyError \<Rightarrow> Inr (None, False)
      | Inl e \<Rightarrow> Inl e
      | Inr new_name \<Rightarrow> Inr (Some new_name, name_check_search new_name))"

section \<open>A fragment of Python's re\<close>

text \<open>
  For the templates that are evaluated below, the part of \<^verbatim>\<open>re\<close> they use is made
  concrete: patterns built from literal characters, \<^verbatim>\<open>.\<close>, capturing groups and
  the greedy \<^verbatim>\<open>*\<close> on a character or on \<^verbatim>\<open>.\<close>; and replacement templates built
  from literal characters and the group references \<^verbatim>\<open>\1\<close> to \<^verbatim>\<open>\99\<close>. Any other
  syntax is \<open>NotModelled\<close>. Inside the fragment the errors are those of \<^verbatim>\<open>re\<close>:
  unbalanced parentheses, nothing to repeat, a repeated repeat, a reference to a
  group that is not there.
\<close>

datatype rx = RChar char | RAny | RStar rx | RGroup nat "rx list"

text \<open>
  The parser reads the pattern once. \<open>ng\<close> counts the groups opened so far (a group
  is numbered by its opening parenthesis), \<open>stack\<close> holds the enclosing groups with
  the items read before them, \<open>cur\<close> the items of the innermost open group, last
  first.
\<close>

fun rx_parse :: "nat \<Rightarrow> (nat \<times> rx list) list \<Rightarrow> rx list \<Rightarrow> string \<Rightarrow> py_error + (rx list \<times> nat)" where
  "rx_parse ng stack cur [] = (if stack = [] then Inr (rev cur, ng) else Inl RegexError)"
| "rx_parse ng stack cur (c # cs) =
     (if c = CHR ''('' then rx_parse (Suc ng) ((Suc ng, cur) # stack) [] cs
      else if c = CHR '')'' then
        (case stack of
           [] \<Rightarrow> Inl RegexError
         | (g, parent) # st \<Rightarrow> rx_parse ng st (RGroup g (rev cur) # parent) cs)
      else if c = CHR ''*'' then
        (case cur of
           [] \<Rightarrow> Inl RegexError
         | RChar d # before \<Rightarrow> rx_parse ng stack (RStar (RChar d) # before) cs
         | RAny # before \<Rightarrow> rx_parse ng stack (RStar RAny # before) cs
         | RStar a # before \<Rightarrow> Inl RegexError
         | RGroup g body # before \<Rightarrow> Inl NotModelled)
      else if c = CHR ''.'' then rx_parse ng stack (RAny # cur) cs
      else if c \<in> set (CHR 0x5C # ''[]{}+?|^$'') then Inl NotModelled
      else rx_parse ng stack (RChar c # cur) cs)"

definition fragment_compile :: "string \<Rightarrow> py_error + (rx list \<times> nat)" where
  "fragment_compile pattern = rx_parse 0 [] [] pattern"

text \<open>
  The matcher is the backtracking search of \<^verbatim>\<open>re\<close>, as the list of the ways a
  pattern can match at the start of a string, in the order in which backtracking
  tries them: each way is what is left of the string and the text of the groups.
\<close>

fun match_atom :: "rx \<Rightarrow> char \<Rightarrow> bool" where
  "match_atom (RChar c) d = (d = c)"
| "match_atom RAny d = (d \<noteq> CHR 0x0A)"
| "match_atom (RStar a) d = False"
| "match_atom (RGroup g body) d = False"

fun star_rests :: "rx \<Rightarrow> string \<Rightarrow> string list" where
  "star_rests a [] = [[]]"
| "star_rests a (c # cs) = (if match_atom a c then star_rests a cs @ [c # cs] else [c # cs])"

fun rx_match :: "rx \<Rightarrow> string \<Rightarrow> (nat \<times> string) list \<Rightarrow> (string \<times> (nat \<times> string) list) list"
  and rx_match_seq :: "rx list \<Rightarrow> string \<Rightarrow> (nat \<times> string) list \<Rightarrow> (string \<times> (nat \<times> string) list) list" where
  "rx_match (RChar c) s caps = (case s of [] \<Rightarrow> [] | d # ds \<Rightarrow> if d = c then [(ds, caps)] else [])"
| "rx_match RAny s caps = (case s of [] \<Rightarrow> [] | d # ds \<Rightarrow> if d \<noteq> CHR 0x0A then [(ds, caps)] else [])"
| "rx_match (RStar a) s caps = map (\<lambda>r. (r, caps)) (star_rests a s)"
| "rx_match (RGroup g body) s caps =
     map (\<lambda>(r, caps'). (r, (g, take (length s - length r) s) # caps')) (rx_match_seq body s caps)"
| "rx_match_seq [] s caps = [(s, caps)]"
| "rx_match_seq (r # rs) s caps = concat (map (\<lambda>(s', caps'). rx_match_seq rs s' caps') (rx_match r s caps))"

text \<open>
  The first match at the start of \<open>s\<close>; after an empty match (\<open>must_advance\<close>) the
  next match at the same place has to be a longer one.
\<close>

definition first_match :: "rx list \<Rightarrow> string \<Rightarrow> bool \<Rightarrow> (string \<times> (nat \<times> string) list) option" where
  "first_match p s must_advance =
     find (\<lambda>(r, caps). \<not> (must_advance \<and> length r = length s)) (rx_match_seq p s [])"

text \<open>\<open>rx_search\<close>: the leftmost match, as its offset, what is left after it and its groups.\<close>

fun rx_search :: "rx list \<Rightarrow> string \<Rightarrow> bool \<Rightarrow> (nat \<times> string \<times> (nat \<times> string) list) option" where
  "rx_search p [] must_advance =
     (case first_match p [] must_advance of
        Some (r, caps) \<Rightarrow> Some (0, r, caps)
      | None \<Rightarrow> None)"
| "rx_search p (c # cs) must_advance =
     (case first_match p (c # cs) must_advance of
        Some (r, caps) \<Rightarrow> Some (0, r, caps)
      | None \<Rightarrow> map_option (\<lambda>(j, r, caps). (Suc j, r, caps)) (rx_search p cs False))"

datatype repl_item = ReplChar char | ReplGroup nat

definition digit_val :: "char \<Rightarrow> nat" where
  "digit_val c = ord c - 48"

definition is_octdigit :: "char \<Rightarrow> bool" where
  "is_octdigit c = (48 \<le> ord c \<and> ord c \<le> 55)"

text \<open>The replacement template is read before the search starts, as \<^verbatim>\<open>re\<close> does.\<close>

fun parse_repl :: "nat \<Rightarrow> string \<Rightarrow> py_error + repl_item list" where
  "parse_repl ng [] = Inr []"
| "parse_repl ng [c] = (if c = CHR 0x5C then Inl NotModelled else Inr [ReplChar c])"
| "parse_repl ng (c # d1 # rest) =
     (if c \<noteq> CHR 0x5C then bind (parse_repl ng (d1 # rest)) (\<lambda>items. Inr (ReplChar c # items))
      else if \<not> is_digit d1 \<or> d1 = CHR ''0'' then Inl NotModelled
      else
        (case rest of
           [] \<Rightarrow> if digit_val d1 > ng then Inl RegexError else Inr [ReplGroup (digit_val d1)]
         | d2 # rest2 \<Rightarrow>
             if is_digit d2 then
               (if is_octdigit d1 \<and> is_octdigit d2 \<and> (case rest2 of [] \<Rightarrow> False | d3 # rest3 \<Rightarrow> is_octdigit d3)
                then Inl NotModelled
                else if 10 * digit_val d1 + digit_val d2 > ng then Inl RegexError
                else bind (parse_repl ng rest2) (\<lambda>items. Inr (ReplGroup (10 * digit_val d1 + digit_val d2) # items)))
             else if digit_val d1 > ng then Inl RegexError
             else bind (parse_repl ng rest) (\<lambda>items. Inr (ReplGroup (digit_val d1) # items))))"

fun rx_expand :: "repl_item list \<Rightarrow> (nat \<times> string) list \<Rightarrow> string" where
  "rx_expand [] caps = []"
| "rx_expand (ReplChar c # items) caps = c # rx_expand items caps"
| "rx_expand (ReplGroup g # items) caps = (case map_of caps g of None \<Rightarrow> [] | Some text \<Rightarrow> text) @ rx_expand items caps"

lemma star_rests_length: "r \<in> set (star_rests a s) \<Longrightarrow> length r \<le> length s"
  by (induction s) (auto split: if_splits)

lemma rx_match_length:
  "(r, caps') \<in> set (rx_match x s caps) \<Longrightarrow> length r \<le> length s"
  "(r, caps') \<in> set (rx_match_seq xs s caps) \<Longrightarrow> length r \<le> length s"
proof (induction x s caps and xs s caps arbitrary: r caps' and r caps' rule: rx_match_rx_match_seq.induct)
  case (1 c s caps)
  then show ?case by (auto split: list.splits if_splits)
next
  case (2 s caps)
  then show ?case by (auto split: list.splits if_splits)
next
  case (3 a s caps)
  then show ?case by (auto dest: star_rests_length)
next
  case (4 g body s caps)
  then show ?case by auto
next
  case (5 s caps)
  then show ?case by simp
next
  case (6 x xs s caps)
  from "6.prems" obtain s1 caps1 where in1: "(s1, caps1) \<in> set (rx_match x s caps)"
    and in2: "(r, caps') \<in> set (rx_match_seq xs s1 caps1)"
    by auto
  from "6.IH"(1) [OF in1] have "length s1 \<le> length s" .
  moreover from "6.IH"(2) [OF in1 refl in2] have "length r \<le> length s1" .
  ultimately show ?case by simp
qed

lemma find_Some_mem: "find P xs = Some x \<Longrightarrow> P x \<and> x \<in> set xs"
  by (induction xs) (auto split: if_splits)

lemma first_match_length:
  assumes "first_match p s adv = Some (r, caps)"
  shows "length r \<le> length s" and "adv \<Longrightarrow> length r < length s"
proof -
  from assms have found: "find (\<lambda>(r, caps). \<not> (adv \<and> length r = length s)) (rx_match_seq p s []) = Some (r, caps)"
    by (simp add: first_match_def)
  from find_Some_mem [OF found] have mem: "(r, caps) \<in> set (rx_match_seq p s [])"
    and ok: "\<not> (adv \<and> length r = length s)"
    by simp_all
  from mem show le: "length r \<le> length s" by (rule rx_match_length(2))
  from ok le show "adv \<Longrightarrow> length r < length s" by auto
qed

lemma rx_search_length:
  "rx_search p s adv = Some (j, r, caps) \<Longrightarrow>
     j + length r \<le> length s \<and> (adv \<and> j = 0 \<longrightarrow> length r < length s)"
proof (induction s arbitrary: j adv)
  case Nil
  then show ?case
    by (auto split: option.splits dest: first_match_length)
next
  case (Cons c cs)
  show ?case
  proof (cases "first_match p (c # cs) adv")
    case None
    with Cons.prems obtain j' where s: "rx_search p cs False = Some (j', r, caps)" and j: "j = Suc j'"
      by auto
    from Cons.IH [OF s] j show ?thesis by simp
  next
    case (Some a)
    with Cons.prems have "first_match p (c # cs) adv = Some (r, caps)" and "j = 0"
      by (auto split: prod.splits)
    then show ?thesis
      using first_match_length [of p "c # cs" adv r caps] by auto
  qed
qed

text \<open>
  \<^verbatim>\<open>p.subn(repl, s)\<close>: the text before a match is copied, the match is replaced, and
  the search goes on after the match.
\<close>

function subn_go :: "rx list \<Rightarrow> repl_item list \<Rightarrow> string \<Rightarrow> bool \<Rightarrow> string \<times> nat" where
  "subn_go p items s must_advance =
     (case rx_search p s must_advance of
        None \<Rightarrow> (s, 0)
      | Some (j, r, caps) \<Rightarrow>
          (case subn_go p items r (length r = length s - j) of
             (out, n) \<Rightarrow> (take j s @ rx_expand items caps @ out, Suc n)))"
  by pat_completeness auto
termination
proof (relation "measure (\<lambda>(p, items, s, adv). 2 * length s + (if adv then 0 else 1))", goal_cases)
  case 1
  then show ?case by simp
next
  case (2 p items s must_advance x2 j y r caps)
  then have "rx_search p s must_advance = Some (j, r, caps)" by simp
  from rx_search_length [OF this] show ?case by auto
qed

declare subn_go.simps [simp del]

definition fragment_subn :: "rx list \<times> nat \<Rightarrow> string \<Rightarrow> string \<Rightarrow> py_error + (string \<times> nat)" where
  "fragment_subn regex_p repl s =
     bind (parse_repl (snd regex_p) repl) (\<lambda>items. Inr (subn_go (fst regex_p) items s False))"

definition fragment_re :: "(rx list \<times> nat) re_engine" where
  "fragment_re = \<lparr>re_compile = fragment_compile, re_groups = snd, re_subn = fragment_subn\<rparr>"

section \<open>Notions of the specification\<close>

text \<open>
  The validity rule in the specification's words: 1 to 128 characters, none of them
  \<^verbatim>\<open>&\<close>, \<^verbatim>\<open><\<close>, \<^verbatim>\<open>>\<close>, \<^verbatim>\<open>!\<close>, the double quote or the space.
\<close>

definition valid_name :: "string \<Rightarrow> bool" where
  "valid_name s = (1 \<le> length s \<and> length s \<le> 128 \<and> set s \<inter> name_check_excluded = {})"



text \<open>
  The class attributes of a subclass in the style of the template types, and a small
  file system, for the concrete instances below.
\<close>

definition sample_cls :: config where
  "sample_cls = \<lparr>store_path = Some [''templates''], store_file = Some ''{item_name}.json'',
     root_dir = ''data'', id_tag = Some ''templateId'', name_tag = Some ''templateName'',
     skip_cmp_tag_set = {''createdOn''}\<rparr>"

definition sample_fs :: filesystem where
  "sample_fs = [[''data''] \<mapsto> Dir, [''data'', ''node1'', ''templates'', ''t1.json''] \<mapsto> File ''old'']"

section \<open>json.loads\<close>

text \<open>
  \<^verbatim>\<open>json.loads(text)\<close> in two passes that accept the texts Python's decoder accepts:
  the text is cut into tokens, and a stack machine builds the value from the tokens.
  Every failure is the JSONDecodeError of Python. Not modelled: a number with a
  fraction or an exponent, \<^verbatim>\<open>NaN\<close> and \<^verbatim>\<open>Infinity\<close> (floats), and an escape
  \<^verbatim>\<open>\uXXXX\<close> above U+00FF.
\<close>

datatype jtoken =
    TLBrace | TRBrace | TLBrack | TRBrack | TComma | TColon
  | TStr string | TInt int | TNull | TTrue | TFalse

text \<open>
  The states of the tokenizer: between tokens; inside a string (the characters read
  so far, last first), after a backslash, inside \<^verbatim>\<open>\uXXXX\<close> (the value of the hex
  digits read and their number); after a minus sign, after the single digit 0, inside
  a number (its sign and the value read); inside \<^verbatim>\<open>null\<close>, \<^verbatim>\<open>true\<close> or \<^verbatim>\<open>false\<close>
  (the characters still to come and the token).
\<close>

datatype lex_state =
    LIdle
  | LStr string
  | LEsc string
  | LUni string nat nat
  | LMinus
  | LZero bool
  | LNum bool nat
  | LLit string jtoken

definition hex_val :: "char \<Rightarrow> nat option" where
  "hex_val c = (let n = ord c in
     if 48 \<le> n \<and> n \<le> 57 then Some (n - 48)
     else if 97 \<le> n \<and> n \<le> 102 then Some (n - 87)
     else if 65 \<le> n \<and> n \<le> 70 then Some (n - 55)
     else None)"

definition unescape :: "char \<Rightarrow> char option" where
  "unescape c =
     (if c = CHR 0x22 then Some (CHR 0x22)
      else if c = CHR 0x5C then Some (CHR 0x5C)
      else if c = CHR ''/'' then Some (CHR ''/'')
      else if c = CHR ''b'' then Some (CHR 0x08)
      else if c = CHR ''f'' then Some (CHR 0x0C)
      else if c = CHR ''n'' then Some (CHR 0x0A)
      else if c = CHR ''r'' then Some (CHR 0x0D)
      else if c = CHR ''t'' then Some (CHR 0x09)
      else None)"

definition signed :: "bool \<Rightarrow> nat \<Rightarrow> int" where
  "signed neg n = (if neg then - int n else int n)"

text \<open>A character between tokens: the next state and the token it completes, if any.\<close>

definition lex_idle :: "char \<Rightarrow> py_error + (lex_state \<times> jtoken option)" where
  "lex_idle c =
     (if c = CHR '' '' \<or> c = CHR 0x09 \<or> c = CHR 0x0A \<or> c = CHR 0x0D then Inr (LIdle, None)
      else if c = CHR ''{'' then Inr (LIdle, Some TLBrace)
      else if c = CHR ''}'' then Inr (LIdle, Some TRBrace)
      else if c = CHR ''['' then Inr (LIdle, Some TLBrack)
      else if c = CHR '']'' then Inr (LIdle, Some TRBrack)
      else if c = CHR '','' then Inr (LIdle, Some TComma)
      else if c = CHR '':'' then Inr (LIdle, Some TColon)
      else if c = CHR 0x22 then Inr (LStr [], None)
      else if c = CHR ''n'' then Inr (LLit ''ull'' TNull, None)
      else if c = CHR ''t'' then Inr (LLit ''rue'' TTrue, None)
      else if c = CHR ''f'' then Inr (LLit ''alse'' TFalse, None)
      else if c = CHR ''-'' then Inr (LMinus, None)
      else if c = CHR ''0'' then Inr (LZero False, None)
      else if is_digit c then Inr (LNum False (digit_val c), None)
      else if c = CHR ''N'' \<or> c = CHR ''I'' then Inl NotModelled
      else Inl JSONDecodeError)"

definition emit :: "jtoken option \<Rightarrow> jtoken list \<Rightarrow> jtoken list" where
  "emit t out = (case t of None \<Rightarrow> out | Some tok \<Rightarrow> out @ [tok])"

text \<open>
  A character after a complete number: a digit after \<^verbatim>\<open>0\<close> starts a new token (which
  the grammar then refuses), a fraction or an exponent would make a float.
\<close>

definition lex_after_number :: "int \<Rightarrow> char \<Rightarrow> jtoken list \<Rightarrow> py_error + (lex_state \<times> jtoken list)" where
  "lex_after_number v c out =
     (if c = CHR ''.'' \<or> c = CHR ''e'' \<or> c = CHR ''E'' then Inl NotModelled
      else bind (lex_idle c) (\<lambda>(st, t). Inr (st, emit t (out @ [TInt v]))))"

definition lex_step :: "lex_state \<Rightarrow> char \<Rightarrow> jtoken list \<Rightarrow> py_error + (lex_state \<times> jtoken list)" where
  "lex_step st c out =
     (case st of
        LIdle \<Rightarrow> bind (lex_idle c) (\<lambda>(st', t). Inr (st', emit t out))
      | LStr acc \<Rightarrow>
          if c = CHR 0x22 then Inr (LIdle, out @ [TStr (rev acc)])
          else if c = CHR 0x5C then Inr (LEsc acc, out)
          else if ord c < 32 then Inl JSONDecodeError
          else Inr (LStr (c # acc), out)
      | LEsc acc \<Rightarrow>
          if c = CHR ''u'' then Inr (LUni acc 0 0, out)
          else (case unescape c of
                  None \<Rightarrow> Inl JSONDecodeError
                | Some ch \<Rightarrow> Inr (LStr (ch # acc), out))
      | LUni acc v k \<Rightarrow>
          (case hex_val c of
             None \<Rightarrow> Inl JSONDecodeError
           | Some d \<Rightarrow>
               if k < 3 then Inr (LUni acc (16 * v + d) (Suc k), out)
               else if 16 * v + d < 256 then Inr (LStr (char_of (16 * v + d) # acc), out)
               else Inl NotModelled)
      | LMinus \<Rightarrow>
          if c = CHR ''0'' then Inr (LZero True, out)
          else if is_digit c then Inr (LNum True (digit_val c), out)
          else if c = CHR ''I'' then Inl NotModelled
          else Inl JSONDecodeError
      | LZero neg \<Rightarrow> lex_after_number 0 c out
      | LNum neg v \<Rightarrow>
          if is_digit c then Inr (LNum neg (10 * v + digit_val c), out)
          else lex_after_number (signed neg v) c out
      | LLit expected tok \<Rightarrow>
          (case expected of
             [] \<Rightarrow> Inl JSONDecodeError
           | e # es \<Rightarrow>
               if c \<noteq> e then Inl JSONDecodeError
               else if es = [] then Inr (LIdle, out @ [tok])
               else Inr (LLit es tok, out)))"

fun lex :: "lex_state \<Rightarrow> string \<Rightarrow> jtoken list \<Rightarrow> py_error + jtoken list" where
  "lex st [] out =
     (case st of
        LIdle \<Rightarrow> Inr out
      | LZero neg \<Rightarrow> Inr (out @ [TInt 0])
      | LNum neg v \<Rightarrow> Inr (out @ [TInt (signed neg v)])
      | _ \<Rightarrow> Inl JSONDecodeError)"
| "lex st (c # cs) out =
     (case lex_step st c out of
        Inl e \<Rightarrow> Inl e
      | Inr (st', out') \<Rightarrow> lex st' cs out')"

text \<open>
  The stack machine. A frame is an array with its elements so far, an object with its
  members so far, or an object with a key that waits for its value. A repeated key
  keeps its place and takes the later value, as a Python dict does.
\<close>

datatype frame = ArrF "json list" | ObjF "(string \<times> json) list" | ObjK "(string \<times> json) list" string

datatype pmode = WantValue | WantValueOrClose | WantKeyOrClose | WantKey | WantColon | AfterValue | Done json

fun dict_set :: "(string \<times> json) list \<Rightarrow> string \<Rightarrow> json \<Rightarrow> (string \<times> json) list" where
  "dict_set [] k v = [(k, v)]"
| "dict_set ((k', v') # ms) k v = (if k' = k then (k', v) # ms else (k', v') # dict_set ms k v)"

text \<open>A complete value goes to the frame on top, or is the result when no frame is left.\<close>

definition deliver :: "json \<Rightarrow> frame list \<Rightarrow> (pmode \<times> frame list) option" where
  "deliver v stack =
     (case stack of
        [] \<Rightarrow> Some (Done v, [])
      | ArrF elems # st \<Rightarrow> Some (AfterValue, ArrF (elems @ [v]) # st)
      | ObjK members k # st \<Rightarrow> Some (AfterValue, ObjF (dict_set members k v) # st)
      | ObjF members # st \<Rightarrow> None)"

definition start_value :: "jtoken \<Rightarrow> frame list \<Rightarrow> (pmode \<times> frame list) option" where
  "start_value t stack =
     (case t of
        TLBrack \<Rightarrow> Some (WantValueOrClose, ArrF [] # stack)
      | TLBrace \<Rightarrow> Some (WantKeyOrClose, ObjF [] # stack)
      | TStr s \<Rightarrow> deliver (JStr s) stack
      | TInt i \<Rightarrow> deliver (JInt i) stack
      | TNull \<Rightarrow> deliver JNull stack
      | TTrue \<Rightarrow> deliver (JBool True) stack
      | TFalse \<Rightarrow> deliver (JBool False) stack
      | _ \<Rightarrow> None)"

definition close_frame :: "jtoken \<Rightarrow> frame list \<Rightarrow> (pmode \<times> frame list) option" where
  "close_frame t stack =
     (case stack of
        ArrF elems # st \<Rightarrow> if t = TRBrack then deliver (JArr elems) st else None
      | ObjF members # st \<Rightarrow> if t = TRBrace then deliver (JObj members) st else None
      | _ \<Rightarrow> None)"

definition take_key :: "jtoken \<Rightarrow> frame list \<Rightarrow> (pmode \<times> frame list) option" where
  "take_key t stack =
     (case (t, stack) of
        (TStr k, ObjF members # st) \<Rightarrow> Some (WantColon, ObjK members k # st)
      | _ \<Rightarrow> None)"

definition parse_step :: "pmode \<Rightarrow> frame list \<Rightarrow> jtoken \<Rightarrow> (pmode \<times> frame list) option" where
  "parse_step mode stack t =
     (case mode of
        WantValue \<Rightarrow> start_value t stack
      | WantValueOrClose \<Rightarrow> if t = TRBrack then close_frame t stack else start_value t stack
      | WantKeyOrClose \<Rightarrow> if t = TRBrace then close_frame t stack else take_key t stack
      | WantKey \<Rightarrow> take_key t stack
      | WantColon \<Rightarrow> if t = TColon then Some (WantValue, stack) else None
      | AfterValue \<Rightarrow>
          if t = TComma then
            (case stack of
               ArrF elems # st \<Rightarrow> Some (WantValue, stack)
             | ObjF members # st \<Rightarrow> Some (WantKey, stack)
             | _ \<Rightarrow> None)
          else close_frame t stack
      | Done v \<Rightarrow> None)"

fun parse_run :: "pmode \<Rightarrow> frame list \<Rightarrow> jtoken list \<Rightarrow> py_error + json" where
  "parse_run mode stack [] = (case mode of Done v \<Rightarrow> Inr v | _ \<Rightarrow> Inl JSONDecodeError)"
| "parse_run mode stack (t # ts) =
     (case parse_step mode stack t of
        None \<Rightarrow> Inl JSONDecodeError
      | Some (mode', stack') \<Rightarrow> parse_run mode' stack' ts)"

definition json_loads :: "string \<Rightarrow> py_error + json" where
  "json_loads text = bind (lex LIdle text []) (parse_run WantValue [])"

section \<open>update\_ids\<close>

text \<open>
  The id pattern
  \<^verbatim>\<open>[0-9a-f]{8}-[0-9a-f]{4}-[0-9a-f]{4}-[0-9a-f]{4}-[0-9a-f]{12}\<close> asks, of each of 36
  characters, whether it is a lowercase hex digit or the hyphen.
\<close>

datatype char_class = HexDigit | Hyphen | OtherChar

definition class_of :: "char \<Rightarrow> char_class" where
  "class_of c = (let n = ord c in
     if (48 \<le> n \<and> n \<le> 57) \<or> (97 \<le> n \<and> n \<le> 102) then HexDigit
     else if c = CHR ''-'' then Hyphen
     else OtherChar)"

definition uuid_pattern :: "char_class list" where
  "uuid_pattern = replicate 8 HexDigit @ [Hyphen] @ replicate 4 HexDigit @ [Hyphen] @
     replicate 4 HexDigit @ [Hyphen] @ replicate 4 HexDigit @ [Hyphen] @ replicate 12 HexDigit"

definition uuid_shape :: "string \<Rightarrow> bool" where
  "uuid_shape u = (map class_of u = uuid_pattern)"

text \<open>
  \<^verbatim>\<open>re.sub(pattern, replace_id, text)\<close> scans the text from the left: where the
  pattern matches, the 36 characters are a match and the scan goes on after them;
  elsewhere one character is passed over.
\<close>

datatype segment = Id string | Plain char

function uuid_scan :: "string \<Rightarrow> segment list" where
  "uuid_scan [] = []"
| "uuid_scan (c # cs) =
     (if uuid_shape (take 36 (c # cs)) then Id (take 36 (c # cs)) # uuid_scan (drop 36 (c # cs))
      else Plain c # uuid_scan cs)"
  by pat_completeness auto
termination
  by (relation "measure length") auto

declare uuid_scan.simps(2) [simp del]

definition re_sub_uuid :: "(string \<Rightarrow> string) \<Rightarrow> string \<Rightarrow> string" where
  "re_sub_uuid repl text = concat (map (\<lambda>seg. case seg of Id u \<Rightarrow> repl u | Plain c \<Rightarrow> [c]) (uuid_scan text))"

text \<open>\<^verbatim>\<open>id_mapping_dict.get(matched_id, matched_id)\<close>.\<close>

definition replace_id :: "(string \<times> string) list \<Rightarrow> string \<Rightarrow> string" where
  "replace_id id_mapping_dict matched_id =
     (case map_of id_mapping_dict matched_id of None \<Rightarrow> matched_id | Some new_id \<Rightarrow> new_id)"

definition update_ids :: "(string \<times> string) list \<Rightarrow> json \<Rightarrow> py_error + json" where
  "update_ids id_mapping_dict item_data =
     json_loads (re_sub_uuid (replace_id id_mapping_dict) (json_dumps item_data))"

text \<open>
  The claim's words, for comparison: the inverse of a mapping, and the ids present in
  a payload (the matches of the id pattern in its serialization).
\<close>

definition inverse_mapping :: "(string \<times> string) list \<Rightarrow> (string \<times> string) list" where
  "inverse_mapping m = map (\<lambda>(old_id, new_id). (new_id, old_id)) m"

fun ids_of :: "segment list \<Rightarrow> string list" where
  "ids_of [] = []"
| "ids_of (Id u # segs) = u # ids_of segs"
| "ids_of (Plain c # segs) = ids_of segs"

definition ids_present :: "json \<Rightarrow> string set" where
  "ids_present p = set (ids_of (uuid_scan (json_dumps p)))"

section \<open>Notions for the round trip of update\_ids\<close>

text \<open>The strings of a payload (keys and values), and the dicts with distinct keys.\<close>

fun strings_of :: "json \<Rightarrow> string set" where
  "strings_of JNull = {}"
| "strings_of (JBool b) = {}"
| "strings_of (JInt i) = {}"
| "strings_of (JStr s) = {s}"
| "strings_of (JArr xs) = \<Union> (strings_of ` set xs)"
| "strings_of (JObj kvs) = fst ` set kvs \<union> \<Union> ((\<lambda>kv. strings_of (snd kv)) ` set kvs)"

fun distinct_keys :: "json \<Rightarrow> bool" where
  "distinct_keys JNull = True"
| "distinct_keys (JBool b) = True"
| "distinct_keys (JInt i) = True"
| "distinct_keys (JStr s) = True"
| "distinct_keys (JArr xs) = list_all distinct_keys xs"
| "distinct_keys (JObj kvs) = (distinct (map fst kvs) \<and> list_all (\<lambda>kv. distinct_keys (snd kv)) kvs)"

text \<open>The payload with a function applied to every string in it.\<close>

fun map_strings :: "(string \<Rightarrow> string) \<Rightarrow> json \<Rightarrow> json" where
  "map_strings f JNull = JNull"
| "map_strings f (JBool b) = JBool b"
| "map_strings f (JInt i) = JInt i"
| "map_strings f (JStr s) = JStr (f s)"
| "map_strings f (JArr xs) = JArr (map (map_strings f) xs)"
| "map_strings f (JObj kvs) = JObj (map (\<lambda>kv. (f (fst kv), map_strings f (snd kv))) kvs)"

text \<open>
  What \<^verbatim>\<open>re.sub\<close> makes of a segment of the scan; a replacement that maps ids to
  ids; the scan with the matches replaced. A text starts with a character that is
  neither a hex digit nor a hyphen (or is empty). The matches of a text.
\<close>

definition render :: "(string \<Rightarrow> string) \<Rightarrow> segment \<Rightarrow> string" where
  "render repl seg = (case seg of Id u \<Rightarrow> repl u | Plain c \<Rightarrow> [c])"

definition keeps_shape :: "(string \<Rightarrow> string) \<Rightarrow> bool" where
  "keeps_shape repl = (\<forall>u. uuid_shape u \<longrightarrow> uuid_shape (repl u))"

definition relabel :: "(string \<Rightarrow> string) \<Rightarrow> segment \<Rightarrow> segment" where
  "relabel repl seg = (case seg of Id u \<Rightarrow> Id (repl u) | Plain c \<Rightarrow> Plain c)"

definition starts_other :: "string \<Rightarrow> bool" where
  "starts_other t = (case t of [] \<Rightarrow> True | c # cs \<Rightarrow> class_of c = OtherChar)"

definition ids :: "string \<Rightarrow> string set" where
  "ids t = set (ids_of (uuid_scan t))"

text \<open>The escaped body of a string literal, and the segments of the escaped body.\<close>

abbreviation esc :: "string \<Rightarrow> string" where
  "esc s \<equiv> concat (map escape_char s)"

definition esc_segment :: "segment \<Rightarrow> segment list" where
  "esc_segment seg = (case seg of Id u \<Rightarrow> [Id u] | Plain c \<Rightarrow> map Plain (escape_char c))"

text \<open>
  No match of the id pattern begins inside an escape sequence. After the character
  \<open>c\<close> of a string comes the serialized \<open>rest\<close> of the string: no match begins at the
  second or a later character of the escape sequence of \<open>c\<close> (an escape sequence starts
  with a backslash, where no match begins; a character written as itself has no later
  character). So it is for every character of a string, and for every string of a
  payload. The hex digits of an escape sequence are the letter of \<^verbatim>\<open>\b\<close> and \<^verbatim>\<open>\f\<close> and
  the digits of \<^verbatim>\<open>\u00XX\<close>.
\<close>

definition escape_safe_at :: "char \<Rightarrow> string \<Rightarrow> bool" where
  "escape_safe_at c rest =
     list_all (\<lambda>k. \<not> uuid_shape (take 36 (drop k (escape_char c) @ rest))) [1..<length (escape_char c)]"

fun escape_safe :: "string \<Rightarrow> bool" where
  "escape_safe [] = True"
| "escape_safe (c # cs) = (escape_safe_at c (esc cs) \<and> escape_safe cs)"

definition safe_strings :: "json \<Rightarrow> bool" where
  "safe_strings p = (\<forall>s \<in> strings_of p. escape_safe s)"

text \<open>
  The tokens of the serialization of a payload; a text that may follow a number; the
  stack machine after a complete value.
\<close>

fun toks :: "json \<Rightarrow> jtoken list" where
  "toks JNull = [TNull]"
| "toks (JBool b) = [if b then TTrue else TFalse]"
| "toks (JInt i) = [TInt i]"
| "toks (JStr s) = [TStr s]"
| "toks (JArr xs) = TLBrack # join [TComma] (map toks xs) @ [TRBrack]"
| "toks (JObj kvs) = TLBrace # join [TComma] (map (\<lambda>kv. TStr (fst kv) # TColon # toks (snd kv)) kvs) @ [TRBrace]"

definition ends_token :: "string \<Rightarrow> bool" where
  "ends_token rest = (case rest of [] \<Rightarrow> True | c # cs \<Rightarrow> c = CHR '','' \<or> c = CHR '']'' \<or> c = CHR ''}'')"

definition continue :: "json \<Rightarrow> frame list \<Rightarrow> jtoken list \<Rightarrow> py_error + json" where
  "continue v stack rest =
     (case deliver v stack of
        None \<Rightarrow> Inl JSONDecodeError
      | Some (mode, stack') \<Rightarrow> parse_run mode stack' rest)"

text \<open>
  Ids and payloads for the concrete instances. The third id is what the pattern
  matches in the serialization of a backspace followed by 35 characters.
\<close>

definition id_a :: string where
  "id_a = ''11111111-1111-1111-1111-111111111111''"

definition id_b :: string where
  "id_b = ''22222222-2222-2222-2222-222222222222''"

definition id_c :: string where
  "id_c = ''b1111111-1111-1111-1111-111111111111''"

definition sample_payload :: json where
  "sample_payload = JObj [(''templateId'', JStr id_a), (''desc'', JStr (''refs '' @ id_b)),
     (''count'', JInt (- 12)), (''tags'', JArr [JNull, JBool True, JStr ''x y'']),
     (''note'', JStr [CHR ''a'', CHR 0x0A, CHR 0x09, CHR 0xE9, CHR 0x22, CHR 0x5C, CHR 0x08, CHR ''b''])]"

definition small_payload :: json where
  "small_payload = JObj [(''ref'', JStr id_a)]"

definition escaped_payload :: json where
  "escaped_payload = JArr [JStr (CHR 0x08 # tl id_c), JStr id_a]"

section \<open>ApiPath: the fallback of the verbs\<close>

text \<open>
  C6. A verb that is not given takes the path of the last verb given: with \<open>get\<close>
  alone, post, put and delete are \<open>get\<close>; with get and post, put and delete are
  post; with get, post and put, delete is put. These are the values that the object
  holds when the constructor returns.
\<close>

theorem ApiPath_init_fallback:
  "ApiPath_init g [] =
     Inr \<lparr>get_op = Assigned g, post_op = Assigned g, put_op = Assigned g, delete_op = Assigned g\<rparr>
   \<and> ApiPath_init g [p] =
     Inr \<lparr>get_op = Assigned g, post_op = Assigned p, put_op = Assigned p, delete_op = Assigned p\<rparr>
   \<and> ApiPath_init g [p, u] =
     Inr \<lparr>get_op = Assigned g, post_op = Assigned p, put_op = Assigned u, delete_op = Assigned u\<rparr>
   \<and> ApiPath_init g [p, u, d] =
     Inr \<lparr>get_op = Assigned g, post_op = Assigned p, put_op = Assigned u, delete_op = Assigned d\<rparr>"
  by (simp add: ApiPath_init_def slots_def setattr_def)

text \<open>
  The values are not fixed at construction. The class has \<^verbatim>\<open>__slots__\<close> and no
  \<^verbatim>\<open>__setattr__\<close>, so an assignment to a slot of a constructed object succeeds: after
  \<^verbatim>\<open>p = ApiPath('/a')\<close> and \<^verbatim>\<open>p.post = '/b'\<close> the post path is \<^verbatim>\<open>'/b'\<close>, no longer the get
  path that the constructor gave it.
\<close>

theorem ApiPath_not_fixed:
  "ApiPath_init (Some ''/a'') [] =
     Inr \<lparr>get_op = Assigned (Some ''/a''), post_op = Assigned (Some ''/a''),
          put_op = Assigned (Some ''/a''), delete_op = Assigned (Some ''/a'')\<rparr>
   \<and> bind (ApiPath_init (Some ''/a'') []) (\<lambda>self. setattr self (Some ''post'') (Some ''/b'')) =
     Inr \<lparr>get_op = Assigned (Some ''/a''), post_op = Assigned (Some ''/b''),
          put_op = Assigned (Some ''/a''), delete_op = Assigned (Some ''/a'')\<rparr>"
  by (simp add: ApiPath_init_def slots_def setattr_def bind_def Let_def)

text \<open>A fifth path has no slot to go to: the constructor raises.\<close>

lemma ApiPath_init_too_many:
  "ApiPath_init g [p, u, d, Some ''extra''] = Inl AttributeError"
  by (simp add: ApiPath_init_def slots_def setattr_def)

section \<open>ServerInfo: attribute access\<close>

text \<open>
  The hook \<^verbatim>\<open>__getattr__\<close> raises AttributeError exactly when the key is absent or
  stored with \<^verbatim>\<open>None\<close>; every other stored value is returned, the falsy ones
  included.
\<close>

lemma ServerInfo_getattr_hook:
  "(ServerInfo_getattr data item = Inl AttributeError)
     = (map_of data item = None \<or> map_of data item = Some JNull)
   \<and> (\<forall>v. map_of data item = Some v \<and> v \<noteq> JNull \<longrightarrow> ServerInfo_getattr data item = Inr v)"
  by (auto simp: ServerInfo_getattr_def dict_get_def split: option.splits)

lemma ServerInfo_getattr_error:
  "ServerInfo_getattr data item = Inl e \<Longrightarrow> e = AttributeError"
  by (auto simp: ServerInfo_getattr_def Let_def split: if_splits)

text \<open>
  C10, for the names that the lookup in the instance and in the class does not find.
  For such a name the access \<^verbatim>\<open>info.item\<close> raises AttributeError exactly when the key is
  absent from the record or stored with \<^verbatim>\<open>None\<close>, and every other stored value is
  returned, the falsy ones included.
\<close>

theorem ServerInfo_attribute_fails_iff:
  assumes "regular_lookup data item = None"
  shows "(ServerInfo_attribute data item = Inl AttributeError)
           = (map_of data item = None \<or> map_of data item = Some JNull)
         \<and> (\<forall>v. map_of data item = Some v \<and> v \<noteq> JNull \<longrightarrow> ServerInfo_attribute data item = Inr (Stored v))"
proof -
  have "(ServerInfo_attribute data item = Inl AttributeError) = (ServerInfo_getattr data item = Inl AttributeError)"
    using assms by (cases "ServerInfo_getattr data item") (simp_all add: ServerInfo_attribute_def bind_def)
  moreover have "ServerInfo_getattr data item = Inr v \<Longrightarrow> ServerInfo_attribute data item = Inr (Stored v)" for v
    using assms by (simp add: ServerInfo_attribute_def bind_def)
  ultimately show ?thesis
    using ServerInfo_getattr_hook [of data item] by blast
qed

theorem ServerInfo_attribute_witness:
  "regular_lookup [(''a'', JInt 0), (''b'', JBool False), (''c'', JStr []), (''d'', JNull)] ''a'' = None
   \<and> ServerInfo_attribute [(''a'', JInt 0), (''b'', JBool False), (''c'', JStr []), (''d'', JNull)] ''a'' = Inr (Stored (JInt 0))
   \<and> ServerInfo_attribute [(''a'', JInt 0), (''b'', JBool False), (''c'', JStr []), (''d'', JNull)] ''b'' = Inr (Stored (JBool False))
   \<and> ServerInfo_attribute [(''a'', JInt 0), (''b'', JBool False), (''c'', JStr []), (''d'', JNull)] ''c'' = Inr (Stored (JStr []))
   \<and> ServerInfo_attribute [(''a'', JInt 0), (''b'', JBool False), (''c'', JStr []), (''d'', JNull)] ''d'' = Inl AttributeError
   \<and> ServerInfo_attribute [(''a'', JInt 0), (''b'', JBool False), (''c'', JStr []), (''d'', JNull)] ''e'' = Inl AttributeError"
proof -
  have free: "regular_lookup data [c] = None" for data c
    by (simp add: regular_lookup_def class_names_def object_names_def)
  show ?thesis
    using ServerInfo_attribute_fails_iff [OF free [of "[(''a'', JInt 0), (''b'', JBool False), (''c'', JStr []), (''d'', JNull)]" "CHR ''a''"]]
      ServerInfo_attribute_fails_iff [OF free [of "[(''a'', JInt 0), (''b'', JBool False), (''c'', JStr []), (''d'', JNull)]" "CHR ''b''"]]
      ServerInfo_attribute_fails_iff [OF free [of "[(''a'', JInt 0), (''b'', JBool False), (''c'', JStr []), (''d'', JNull)]" "CHR ''c''"]]
      ServerInfo_attribute_fails_iff [OF free [of "[(''a'', JInt 0), (''b'', JBool False), (''c'', JStr []), (''d'', JNull)]" "CHR ''d''"]]
      ServerInfo_attribute_fails_iff [OF free [of "[(''a'', JInt 0), (''b'', JBool False), (''c'', JStr []), (''d'', JNull)]" "CHR ''e''"]]
      free [of "[(''a'', JInt 0), (''b'', JBool False), (''c'', JStr []), (''d'', JNull)]" "CHR ''a''"]
    by simp
qed

text \<open>
  For every record and key the claim fails. The name \<^verbatim>\<open>data\<close> is found in the instance:
  on a record without the key \<^verbatim>\<open>data\<close> the access returns the dict of the record, it does
  not raise. The name \<^verbatim>\<open>store_file\<close> is found in the class: on a record that stores
  \<^verbatim>\<open>store_file='x'\<close> the access returns the class attribute, not the stored value.
\<close>

theorem ServerInfo_attribute_counterexample:
  "map_of ([] :: (string \<times> json) list) ''data'' = None
   \<and> ServerInfo_attribute [] ''data'' = Inr (InstanceData [])
   \<and> map_of [(''store_file'', JStr ''x'')] ''store_file'' = Some (JStr ''x'')
   \<and> ServerInfo_attribute [(''store_file'', JStr ''x'')] ''store_file'' = Inr (ClassAttribute ''store_file'')"
  by (simp add: ServerInfo_attribute_def regular_lookup_def class_names_def)

section \<open>filename\_safe: the characters of the result\<close>

text \<open>
  What the substitution guarantees: every character of the result is a word
  character, whitespace or the hyphen (the underscore is a word character).
\<close>

lemma filename_safe_chars:
  "\<forall>c \<in> set (filename_safe name False). re_word c \<or> re_space c \<or> c = CHR ''-''"
  by (auto simp: filename_safe_def re_word_def ord_def)

lemma filename_safe_length: "length (filename_safe name lower) = length name"
  by (simp add: filename_safe_def str_lower_def Let_def)

text \<open>
  C4. The claim and the docstring promise a result within a-z, A-Z, 0-9, underscore,
  space and hyphen. The pattern keeps every whitespace and every word character:
  in \<^verbatim>\<open>"a\tb"\<close> the tab stays, and the letter U+00E9 (e with acute) stays.
\<close>

theorem filename_safe_keeps_tab:
  "filename_safe [CHR ''a'', CHR 0x09, CHR ''b''] False = [CHR ''a'', CHR 0x09, CHR ''b'']
   \<and> \<not> docstring_safe_char (CHR 0x09)
   \<and> filename_safe [CHR 0xE9] False = [CHR 0xE9]
   \<and> \<not> docstring_safe_char (CHR 0xE9)"
  by (simp add: filename_safe_def re_word_def re_space_def docstring_safe_char_def ord_def)

section \<open>get\_filename: the raw template\<close>

text \<open>
  C9. When the item name or the item id is absent (one of them is enough), the file
  name is the class's \<^verbatim>\<open>store_file\<close> as it stands, with no placeholder replaced.
\<close>

theorem get_filename_raw:
  "item_name = None \<or> item_id = None \<Longrightarrow>
     get_filename cls ext_name item_name item_id = Inr (store_file cls)"
  by (simp add: get_filename_def)

theorem get_filename_raw_witness:
  "get_filename sample_cls True (Some ''t1'') None = Inr (Some ''{item_name}.json'')
   \<and> get_filename sample_cls False None (Some ''id1'') = Inr (Some ''{item_name}.json'')
   \<and> store_file sample_cls = Some ''{item_name}.json''"
  using get_filename_raw [of "Some ''t1''" None sample_cls True]
    get_filename_raw [of None "Some ''id1''" sample_cls False]
  by (simp add: sample_cls_def)

text \<open>With both present the placeholders are replaced.\<close>

lemma get_filename_substituted:
  "get_filename sample_cls False (Some ''a/b'') (Some ''id1'') = Inr (Some ''a_b.json'')"
  by (simp add: get_filename_def sample_cls_def filename_safe_def re_word_def re_space_def ord_def
      str_format_def bind_def format_field_def is_digit_def py_format_value_def)

section \<open>is\_equal: a comparison of characters\<close>

lemma sort_eq_iff_mset: "(sort xs = sort ys) = (mset xs = mset ys)"
  by (metis mset_sort properties_for_sort sorted_sort)

lemma cmp_dict_stripped:
  "JObj (filter (\<lambda>(k, v). k \<notin> skip_cmp_tag_set cls \<union> set_option (id_tag cls)) kvs) = stripped cls kvs"
  unfolding stripped_def by (cases "id_tag cls") (auto intro!: filter_cong)

text \<open>
  C5. On two dict payloads \<^verbatim>\<open>is_equal\<close> returns true exactly when the two payloads,
  without the identifier field and the excluded fields at the top level, serialize to
  texts with the same characters counted with multiplicity (equal sorted character
  sequences). It is not a structural comparison: the instance after the theorem
  compares two different payloads equal.
\<close>

theorem is_equal_iff_same_characters:
  "is_equal cls (JObj a) (JObj b)
     = Inr (mset (json_dumps (stripped cls a)) = mset (json_dumps (stripped cls b)))"
  unfolding is_equal_def dict_items_def bind_def Let_def
  by (simp only: json.case sum.case cmp_dict_stripped sort_eq_iff_mset)

theorem is_equal_witness:
  "is_equal sample_cls (JObj [(''templateId'', JStr ''1''), (''a'', JStr ''bc'')])
                       (JObj [(''templateId'', JStr ''2''), (''a'', JStr ''cb'')]) = Inr True
   \<and> stripped sample_cls [(''templateId'', JStr ''1''), (''a'', JStr ''bc'')] = JObj [(''a'', JStr ''bc'')]
   \<and> stripped sample_cls [(''templateId'', JStr ''2''), (''a'', JStr ''cb'')] = JObj [(''a'', JStr ''cb'')]
   \<and> mset (json_dumps (stripped sample_cls [(''templateId'', JStr ''1''), (''a'', JStr ''bc'')]))
     = mset (json_dumps (stripped sample_cls [(''templateId'', JStr ''2''), (''a'', JStr ''cb'')]))
   \<and> is_equal sample_cls (JObj [(''a'', JStr ''bc'')]) (JObj [(''a'', JStr ''bd'')]) = Inr False"
proof -
  have e1: "is_equal sample_cls (JObj [(''templateId'', JStr ''1''), (''a'', JStr ''bc'')])
                       (JObj [(''templateId'', JStr ''2''), (''a'', JStr ''cb'')]) = Inr True"
    by code_simp
  have e2: "is_equal sample_cls (JObj [(''a'', JStr ''bc'')]) (JObj [(''a'', JStr ''bd'')]) = Inr False"
    by code_simp
  have s1: "stripped sample_cls [(''templateId'', JStr ''1''), (''a'', JStr ''bc'')] = JObj [(''a'', JStr ''bc'')]"
    and s2: "stripped sample_cls [(''templateId'', JStr ''2''), (''a'', JStr ''cb'')] = JObj [(''a'', JStr ''cb'')]"
    by (simp_all add: stripped_def sample_cls_def)
  from e1 is_equal_iff_same_characters [of sample_cls "[(''templateId'', JStr ''1''), (''a'', JStr ''bc'')]"
      "[(''templateId'', JStr ''2''), (''a'', JStr ''cb'')]"]
  have "mset (json_dumps (stripped sample_cls [(''templateId'', JStr ''1''), (''a'', JStr ''bc'')]))
     = mset (json_dumps (stripped sample_cls [(''templateId'', JStr ''2''), (''a'', JStr ''cb'')]))"
    by simp
  with e1 e2 s1 s2 show ?thesis by simp
qed

section \<open>save: nothing on an empty payload, the file otherwise\<close>

lemma ancestors_snoc: "p \<noteq> [] \<Longrightarrow> ancestors (p @ [x]) = ancestors p @ [p]"
proof -
  assume ne: "p \<noteq> []"
  then have len: "1 \<le> length p" by (cases p) simp_all
  have "[1..<length (p @ [x])] = [1..<length p] @ [length p]"
    using len by simp
  moreover have "map (\<lambda>n. take n (p @ [x])) [1..<length p] = map (\<lambda>n. take n p) [1..<length p]"
    by (rule map_cong) simp_all
  ultimately show ?thesis
    by (simp add: ancestors_def)
qed

lemma ancestors_shorter: "q \<in> set (ancestors p) \<Longrightarrow> q \<noteq> [] \<and> length q < length p"
  by (auto simp: ancestors_def)

text \<open>
  When no file stands on the way to the target and the target is not a directory,
  the directories are made and the file is written.
\<close>

lemma mkdir_then_write:
  assumes ne: "dir \<noteq> []"
    and nf: "\<not> list_ex (is_file fs) (ancestors (dir @ [filename]))"
    and nd: "fs (dir @ [filename]) \<noteq> Some Dir"
  shows "\<exists>fs1. mkdir_parents fs dir = Inr fs1 \<and>
     write_file fs1 (dir @ [filename]) content =
       Inr ((\<lambda>q. if q \<in> set (ancestors (dir @ [filename])) \<and> fs q = None then Some Dir else fs q)
            (dir @ [filename] \<mapsto> File content))"
proof -
  let ?target = "dir @ [filename]"
  have anc: "ancestors ?target = ancestors dir @ [dir]"
    using ne by (rule ancestors_snoc)
  have nf1: "\<not> list_ex (is_file fs) (ancestors dir)" and nf2: "\<not> is_file fs dir"
    using nf unfolding anc by (simp_all add: list_ex_iff)
  define fs1 where "fs1 = (\<lambda>q. if q \<in> set (ancestors dir @ [dir]) \<and> q \<noteq> [] \<and> fs q = None then Some Dir else fs q)"
  have mk: "mkdir_parents fs dir = Inr fs1"
    using nf1 nf2 by (simp add: mkdir_parents_def fs1_def)
  have notin: "?target \<notin> set (ancestors dir @ [dir])"
    using ancestors_shorter [of ?target dir] by auto
  have t1: "fs1 ?target \<noteq> Some Dir"
    using nd notin unfolding fs1_def by simp
  have d1: "fs1 dir = Some Dir"
    using nf2 ne unfolding fs1_def is_file_def by (auto split: option.splits node.splits)
  have wr: "write_file fs1 ?target content = Inr (fs1(?target \<mapsto> File content))"
    using t1 d1 by (simp add: write_file_def is_dir_def)
  have fs1_eq: "fs1 = (\<lambda>q. if q \<in> set (ancestors ?target) \<and> fs q = None then Some Dir else fs q)"
    unfolding fs1_def anc using ancestors_shorter [of _ dir] ne by (intro ext) auto
  show ?thesis
    using mk wr unfolding fs1_eq by blast
qed

text \<open>
  C7. On an empty or null payload \<^verbatim>\<open>save\<close> returns \<^verbatim>\<open>False\<close> and leaves the file
  system as it was. On a non-empty payload it never returns \<^verbatim>\<open>False\<close>; and when the
  store path and the file name are there, no file stands on the way and the target is
  not a directory, it returns \<^verbatim>\<open>True\<close>, and the file system is the old one with the
  missing directories made and the target holding the serialized payload, whatever
  the target held before.
\<close>

theorem save_empty_or_written:
  "(is_empty data = Inr True \<longrightarrow> save cls data fs node_dir ext item_name item_id = (Inr False, fs))
 \<and> (is_empty data = Inr False \<longrightarrow> fst (save cls data fs node_dir ext item_name item_id) \<noteq> Inr False)
 \<and> (is_empty data = Inr False
      \<and> store_path cls = Some segments
      \<and> get_filename cls ext item_name item_id = Inr (Some filename)
      \<and> \<not> list_ex (is_file fs) (ancestors (root_dir cls # node_dir # segments @ [filename]))
      \<and> fs (root_dir cls # node_dir # segments @ [filename]) \<noteq> Some Dir
    \<longrightarrow> save cls data fs node_dir ext item_name item_id =
       (Inr True,
        (\<lambda>q. if q \<in> set (ancestors (root_dir cls # node_dir # segments @ [filename])) \<and> fs q = None
              then Some Dir else fs q)
        (root_dir cls # node_dir # segments @ [filename] \<mapsto> File (json_dump_indent 0 data))))"
proof (intro conjI impI)
  assume "is_empty data = Inr True"
  then show "save cls data fs node_dir ext item_name item_id = (Inr False, fs)"
    by (simp add: save_def)
next
  assume "is_empty data = Inr False"
  then show "fst (save cls data fs node_dir ext item_name item_id) \<noteq> Inr False"
    by (simp add: save_def Let_def split: option.splits sum.splits)
next
  let ?dir = "root_dir cls # node_dir # segments"
  assume a: "is_empty data = Inr False
      \<and> store_path cls = Some segments
      \<and> get_filename cls ext item_name item_id = Inr (Some filename)
      \<and> \<not> list_ex (is_file fs) (ancestors (root_dir cls # node_dir # segments @ [filename]))
      \<and> fs (root_dir cls # node_dir # segments @ [filename]) \<noteq> Some Dir"
  have "?dir \<noteq> []" by simp
  moreover have "\<not> list_ex (is_file fs) (ancestors (?dir @ [filename]))" using a by simp
  moreover have "fs (?dir @ [filename]) \<noteq> Some Dir" using a by simp
  ultimately obtain fs1 where mk: "mkdir_parents fs ?dir = Inr fs1"
    and wr: "write_file fs1 (?dir @ [filename]) (json_dump_indent 0 data) =
       Inr ((\<lambda>q. if q \<in> set (ancestors (?dir @ [filename])) \<and> fs q = None then Some Dir else fs q)
            (?dir @ [filename] \<mapsto> File (json_dump_indent 0 data)))"
    using mkdir_then_write [of ?dir fs filename "json_dump_indent 0 data"] by blast
  show "save cls data fs node_dir ext item_name item_id =
       (Inr True,
        (\<lambda>q. if q \<in> set (ancestors (root_dir cls # node_dir # segments @ [filename])) \<and> fs q = None
              then Some Dir else fs q)
        (root_dir cls # node_dir # segments @ [filename] \<mapsto> File (json_dump_indent 0 data)))"
    using a mk wr by (simp add: save_def)
qed

lemma sample_filename: "get_filename sample_cls False (Some ''t1'') (Some ''id1'') = Inr (Some ''t1.json'')"
  by (simp add: get_filename_def sample_cls_def filename_safe_def re_word_def re_space_def ord_def
      str_format_def bind_def format_field_def is_digit_def py_format_value_def)

lemma sample_ancestors: "ancestors [''data'', ''node1'', ''templates'', ''t1.json''] =
   [[''data''], [''data'', ''node1''], [''data'', ''node1'', ''templates'']]"
  by (simp add: ancestors_def upt_rec)

lemma sample_dump: "json_dump_indent 0 (JObj [(''a'', JInt 1)]) =
   [CHR ''{'', CHR 0x0A, CHR '' '', CHR '' '', CHR 0x22, CHR ''a'', CHR 0x22, CHR '':'', CHR '' '', CHR ''1'', CHR 0x0A, CHR ''}'']"
  by code_simp

text \<open>
  The instance: the null and the empty payload leave \<open>sample_fs\<close> alone; the payload
  \<^verbatim>\<open>{"a": 1}\<close> replaces the old content of the file.
\<close>

theorem save_witness:
  "save sample_cls JNull sample_fs ''node1'' False (Some ''t1'') (Some ''id1'') = (Inr False, sample_fs)
 \<and> save sample_cls (JObj []) sample_fs ''node1'' False (Some ''t1'') (Some ''id1'') = (Inr False, sample_fs)
 \<and> fst (save sample_cls (JObj [(''a'', JInt 1)]) sample_fs ''node1'' False (Some ''t1'') (Some ''id1'')) = Inr True
 \<and> snd (save sample_cls (JObj [(''a'', JInt 1)]) sample_fs ''node1'' False (Some ''t1'') (Some ''id1''))
      [''data'', ''node1'', ''templates'', ''t1.json'']
    = Some (File [CHR ''{'', CHR 0x0A, CHR '' '', CHR '' '', CHR 0x22, CHR ''a'', CHR 0x22, CHR '':'', CHR '' '', CHR ''1'', CHR 0x0A, CHR ''}''])
 \<and> sample_fs [''data'', ''node1'', ''templates'', ''t1.json''] = Some (File ''old'')"
  using save_empty_or_written [of JNull sample_cls sample_fs "''node1''" False "Some ''t1''" "Some ''id1''"]
    save_empty_or_written [of "JObj []" sample_cls sample_fs "''node1''" False "Some ''t1''" "Some ''id1''"]
    save_empty_or_written [of "JObj [(''a'', JInt 1)]" sample_cls sample_fs "''node1''" False "Some ''t1''" "Some ''id1''"
      "[''templates'']" "''t1.json''"]
    sample_filename sample_ancestors sample_dump
  by (simp add: is_empty_def sample_cls_def sample_fs_def is_file_def)

section \<open>get\_new\_name: the validity flag\<close>

lemma at_dollar_no_newline:
  assumes "CHR 0x0A \<notin> set s"
  shows "at_dollar s n = (n = length s)"
proof -
  have "Suc n = length s \<Longrightarrow> s ! n \<in> set s"
    by (rule nth_mem) simp
  with assms show ?thesis
    unfolding at_dollar_def by metis
qed

lemma ex_upt_length:
  "list_ex (\<lambda>n. P n \<and> n = length s) [a..<b] = (a \<le> length s \<and> length s < b \<and> P (length s))"
  unfolding list_ex_iff by auto

lemma name_check_match_at_0:
  assumes nl: "CHR 0x0A \<notin> set s"
  shows "name_check_match_at s 0 = valid_name s"
proof -
  have tk: "\<And>n. list_all (\<lambda>c. c \<noteq> CHR 0x0A) (take n s)"
    using nl unfolding list_all_iff by (metis in_set_takeD)
  have la: "list_ex (\<lambda>n. 0 + n \<le> length s \<and> list_all (\<lambda>c. c \<noteq> CHR 0x0A) (take n (drop 0 s)) \<and> at_dollar s (0 + n)) [1..<129]
      = (1 \<le> length s \<and> length s \<le> 128)"
  proof -
    have lt: "(length s < 129) = (length s \<le> 128)" by arith
    show ?thesis
      using ex_upt_length [of "\<lambda>n. n \<le> length s" s 1 129]
      by (simp add: tk at_dollar_no_newline [OF nl] lt)
  qed
  have body: "list_ex (\<lambda>k. list_all (\<lambda>c. c \<notin> name_check_excluded) (take k (drop 0 s)) \<and> at_dollar s (0 + k)) [1..<Suc (length s - 0)]
      = (1 \<le> length s \<and> set s \<inter> name_check_excluded = {})"
    using ex_upt_length [of "\<lambda>k. list_all (\<lambda>c. c \<notin> name_check_excluded) (take k s)" s 1 "Suc (length s)"]
    by (auto simp: at_dollar_no_newline [OF nl] list_all_iff)
  show ?thesis
    unfolding name_check_match_at_def la body valid_name_def by auto
qed

text \<open>The lookahead starts with \<^verbatim>\<open>^\<close>, so the search can only succeed at position 0.\<close>

lemma name_check_search_0: "name_check_search s = name_check_match_at s 0"
proof
  assume "name_check_search s"
  then obtain i where "name_check_match_at s i"
    unfolding name_check_search_def list_ex_iff by blast
  moreover from this have "i = 0"
    by (simp add: name_check_match_at_def)
  ultimately show "name_check_match_at s 0" by simp
next
  assume "name_check_match_at s 0"
  moreover have "0 \<in> set [0..<Suc (length s)]" by simp
  ultimately show "name_check_search s"
    unfolding name_check_search_def list_ex_iff by blast
qed

lemma name_check_no_newline:
  "CHR 0x0A \<notin> set s \<Longrightarrow> name_check_search s = valid_name s"
  by (simp add: name_check_search_0 name_check_match_at_0)

text \<open>
  On a new name with no line feed in it the check is the rule of the specification:
  whenever \<^verbatim>\<open>get_new_name\<close> returns such a name, the flag is true exactly when the name
  has 1 to 128 characters and none of the excluded ones (and it is false when there is
  no new name).
\<close>

lemma get_new_name_valid_iff:
  assumes "get_new_name cls re data name_template = Inr (new_name, is_valid)"
    and "\<forall>s. new_name = Some s \<longrightarrow> CHR 0x0A \<notin> set s"
  shows "is_valid = (case new_name of None \<Rightarrow> False | Some s \<Rightarrow> valid_name s)"
  using assms
  by (auto simp: get_new_name_def name_check_no_newline split: sum.splits py_error.splits)

lemma sample_new_name:
  "get_new_name sample_cls fragment_re (JObj [(''templateName'', JStr ''G_Branch_184_x'')])
     ''migrated_{name G_Branch_184_(.*)}'' = Inr (Some ''migrated_x'', True)"
  by code_simp

lemma sample_new_name_space:
  "get_new_name sample_cls fragment_re (JObj [(''templateName'', JStr ''abc'')])
     ''my {name}'' = Inr (Some ''my abc'', False)"
  by code_simp

text \<open>
  A line feed inside the name makes the lookahead fail, since \<^verbatim>\<open>.\<close> does not match it:
  the name \<^verbatim>\<open>"a\nb"\<close> has three characters, none of them excluded, and the flag is false.
\<close>

lemma get_new_name_inner_newline:
  "get_new_name sample_cls fragment_re (JObj [(''templateName'', JStr [CHR ''a'', CHR 0x0A, CHR ''b''])])
     ''{name}'' = Inr (Some [CHR ''a'', CHR 0x0A, CHR ''b''], False)
   \<and> valid_name [CHR ''a'', CHR 0x0A, CHR ''b'']"
proof -
  have "get_new_name sample_cls fragment_re (JObj [(''templateName'', JStr [CHR ''a'', CHR 0x0A, CHR ''b''])])
     ''{name}'' = Inr (Some [CHR ''a'', CHR 0x0A, CHR ''b''], False)"
    by code_simp
  moreover have "valid_name [CHR ''a'', CHR 0x0A, CHR ''b'']"
    by (simp add: valid_name_def name_check_excluded_def)
  ultimately show ?thesis by simp
qed

lemma name_check_trailing_newline:
  "name_check_search (replicate 128 CHR ''a'' @ [CHR 0x0A])"
  by code_simp

text \<open>
  C3. The pattern \<^verbatim>\<open>(?=^.{1,128}$)[^&<>! "]+$\<close> bounds the name to 128 characters, but
  \<^verbatim>\<open>$\<close> also holds before a line feed that ends the string, and the character class
  admits the line feed. So a line feed at the end is not counted: for an item whose name
  is 128 letters and a final line feed, \<^verbatim>\<open>get_new_name('{name}')\<close> returns that name of
  129 characters with the flag true.
\<close>

theorem get_new_name_accepts_129_characters:
  "get_new_name sample_cls fragment_re
       (JObj [(''templateName'', JStr (replicate 128 CHR ''a'' @ [CHR 0x0A]))]) ''{name}''
     = Inr (Some (replicate 128 CHR ''a'' @ [CHR 0x0A]), True)
   \<and> length (replicate 128 CHR ''a'' @ [CHR 0x0A]) = 129
   \<and> \<not> valid_name (replicate 128 CHR ''a'' @ [CHR 0x0A])"
proof -
  have "get_new_name sample_cls fragment_re
       (JObj [(''templateName'', JStr (replicate 128 CHR ''a'' @ [CHR 0x0A]))]) ''{name}''
     = Inr (Some (replicate 128 CHR ''a'' @ [CHR 0x0A]), True)"
    by code_simp
  then show ?thesis
    by (simp add: valid_name_def)
qed

section \<open>get\_new\_name: malformed templates\<close>






section \<open>ExtendedTemplate: the two examples\<close>

lemma template_call_match:
  "ExtendedTemplate_call fragment_re ''prefix_{name (abc)(.*)}'' (JStr ''abcXYZ'') = Inr ''prefix_abcXYZ''"
  by code_simp

lemma template_call_no_match:
  "ExtendedTemplate_call fragment_re ''prefix_{name (abc)(.*)}'' (JStr ''zzz'') = Inr ''prefix_''"
  by code_simp

text \<open>
  C1, as the code has it. The placeholder is replaced by the text of every capturing
  group: on \<^verbatim>\<open>"abcXYZ"\<close> the groups are \<^verbatim>\<open>abc\<close> and \<^verbatim>\<open>XYZ\<close>, so the result is
  \<^verbatim>\<open>"prefix_abcXYZ"\<close>; on \<^verbatim>\<open>"zzz"\<close> the regex matches nowhere and the result is
  \<^verbatim>\<open>"prefix_"\<close>.
\<close>

theorem template_call_examples:
  "ExtendedTemplate_call fragment_re ''prefix_{name (abc)(.*)}'' (JStr ''abcXYZ'') = Inr ''prefix_abcXYZ''
   \<and> ExtendedTemplate_call fragment_re ''prefix_{name (abc)(.*)}'' (JStr ''zzz'') = Inr ''prefix_''"
  using template_call_match template_call_no_match by simp

text \<open>The result that the claim names, \<^verbatim>\<open>"prefix_XYZ"\<close>, is not what the call returns.\<close>

theorem template_call_counterexample:
  "ExtendedTemplate_call fragment_re ''prefix_{name (abc)(.*)}'' (JStr ''abcXYZ'') \<noteq> Inr ''prefix_XYZ''"
  using template_call_match by simp

section \<open>update\_ids: rewriting with the inverse mapping and back\<close>

subsection \<open>The scan\<close>

lemma uuid_pattern_length: "length uuid_pattern = 36"
  by (simp add: uuid_pattern_def)

lemma uuid_shape_length: "uuid_shape u \<Longrightarrow> length u = 36"
  using uuid_pattern_length unfolding uuid_shape_def by (metis length_map)

lemma uuid_pattern_no_other: "OtherChar \<notin> set uuid_pattern"
  by (simp add: uuid_pattern_def)

lemma uuid_pattern_hd: "hd uuid_pattern = HexDigit"
  by (simp add: uuid_pattern_def)

lemma uuid_shape_no_other: "uuid_shape u \<Longrightarrow> c \<in> set u \<Longrightarrow> class_of c \<noteq> OtherChar"
proof -
  assume "uuid_shape u" and "c \<in> set u"
  then have "class_of c \<in> set uuid_pattern"
    unfolding uuid_shape_def by (metis image_eqI set_map)
  with uuid_pattern_no_other show ?thesis by metis
qed

lemma uuid_scan_match:
  assumes "uuid_shape (take 36 t)"
  shows "uuid_scan t = Id (take 36 t) # uuid_scan (drop 36 t)"
proof (cases t)
  case Nil
  with assms show ?thesis by (simp add: uuid_shape_def uuid_pattern_def)
next
  case (Cons c cs)
  with assms show ?thesis by (simp add: uuid_scan.simps(2))
qed

lemma uuid_scan_no_match:
  "\<not> uuid_shape (take 36 (c # cs)) \<Longrightarrow> uuid_scan (c # cs) = Plain c # uuid_scan cs"
  by (simp add: uuid_scan.simps(2))

lemma uuid_shape_take_hd:
  assumes "uuid_shape (take 36 (c # cs))"
  shows "class_of c = HexDigit"
proof -
  from assms have "map class_of (take 36 (c # cs)) = uuid_pattern"
    by (simp add: uuid_shape_def)
  then have "hd (map class_of (take 36 (c # cs))) = hd uuid_pattern" by simp
  then show ?thesis by (simp add: uuid_pattern_hd)
qed

lemma uuid_scan_skip:
  "class_of c \<noteq> HexDigit \<Longrightarrow> uuid_scan (c # cs) = Plain c # uuid_scan cs"
  using uuid_shape_take_hd uuid_scan_no_match by blast

lemma re_sub_uuid_render: "re_sub_uuid repl text = concat (map (render repl) (uuid_scan text))"
  by (simp add: re_sub_uuid_def render_def [abs_def])

lemma scan_concat: "concat (map (render (\<lambda>u. u)) (uuid_scan t)) = t"
proof (induction t rule: uuid_scan.induct)
  case 1
  then show ?case by simp
next
  case (2 c cs)
  show ?case
  proof (cases "uuid_shape (take 36 (c # cs))")
    case True
    then have "uuid_scan (c # cs) = Id (take 36 (c # cs)) # uuid_scan (drop 36 (c # cs))"
      by (rule uuid_scan_match)
    moreover have "concat (map (render (\<lambda>u. u)) (uuid_scan (drop 36 (c # cs)))) = drop 36 (c # cs)"
      using 2(1) [OF True] .
    ultimately have "concat (map (render (\<lambda>u. u)) (uuid_scan (c # cs))) = take 36 (c # cs) @ drop 36 (c # cs)"
      by (simp add: render_def)
    then show ?thesis by (simp only: append_take_drop_id)
  next
    case False
    then have "uuid_scan (c # cs) = Plain c # uuid_scan cs"
      by (rule uuid_scan_no_match)
    with 2(2) [OF False] show ?thesis by (simp add: render_def)
  qed
qed

lemma re_sub_uuid_match:
  "uuid_shape (take 36 t) \<Longrightarrow> re_sub_uuid repl t = repl (take 36 t) @ re_sub_uuid repl (drop 36 t)"
  by (simp add: re_sub_uuid_def uuid_scan_match)

lemma re_sub_uuid_no_match:
  "\<not> uuid_shape (take 36 (c # cs)) \<Longrightarrow> re_sub_uuid repl (c # cs) = c # re_sub_uuid repl cs"
  by (simp add: re_sub_uuid_def uuid_scan_no_match)

text \<open>A replacement that keeps the shape of an id keeps the class of every character.\<close>

lemma re_sub_uuid_classes:
  assumes "keeps_shape repl"
  shows "map class_of (re_sub_uuid repl t) = map class_of t"
proof (induction t rule: uuid_scan.induct)
  case 1
  then show ?case by (simp add: re_sub_uuid_def)
next
  case (2 c cs)
  show ?case
  proof (cases "uuid_shape (take 36 (c # cs))")
    case True
    then have sc: "uuid_scan (c # cs) = Id (take 36 (c # cs)) # uuid_scan (drop 36 (c # cs))"
      by (rule uuid_scan_match)
    from True assms have "uuid_shape (repl (take 36 (c # cs)))"
      by (simp add: keeps_shape_def)
    with True have "map class_of (repl (take 36 (c # cs))) = map class_of (take 36 (c # cs))"
      by (simp add: uuid_shape_def)
    moreover have "map class_of (re_sub_uuid repl (drop 36 (c # cs))) = map class_of (drop 36 (c # cs))"
      using 2(1) [OF True] .
    ultimately have "map class_of (re_sub_uuid repl (c # cs))
        = map class_of (take 36 (c # cs)) @ map class_of (drop 36 (c # cs))"
      using re_sub_uuid_match [OF True, of repl] by (simp only: map_append)
    also have "\<dots> = map class_of (c # cs)"
      by (simp only: map_append [symmetric] append_take_drop_id)
    finally show ?thesis .
  next
    case False
    then have "uuid_scan (c # cs) = Plain c # uuid_scan cs"
      by (rule uuid_scan_no_match)
    with 2(2) [OF False] show ?thesis by (simp add: re_sub_uuid_def)
  qed
qed

text \<open>After such a replacement the scan finds the matches at the same places.\<close>

lemma uuid_scan_re_sub_uuid:
  assumes ks: "keeps_shape repl"
  shows "uuid_scan (re_sub_uuid repl t) = map (relabel repl) (uuid_scan t)"
proof (induction t rule: uuid_scan.induct)
  case 1
  then show ?case by (simp add: re_sub_uuid_def)
next
  case (2 c cs)
  show ?case
  proof (cases "uuid_shape (take 36 (c # cs))")
    case True
    let ?u = "take 36 (c # cs)"
    from True ks have sh: "uuid_shape (repl ?u)" by (simp add: keeps_shape_def)
    then have len: "length (repl ?u) = 36" by (rule uuid_shape_length)
    have sub: "re_sub_uuid repl (c # cs) = repl ?u @ re_sub_uuid repl (drop 36 (c # cs))"
      using True by (rule re_sub_uuid_match)
    have "uuid_shape (take 36 (re_sub_uuid repl (c # cs)))"
      using sh len by (simp add: sub)
    then have "uuid_scan (re_sub_uuid repl (c # cs))
        = Id (take 36 (re_sub_uuid repl (c # cs))) # uuid_scan (drop 36 (re_sub_uuid repl (c # cs)))"
      by (rule uuid_scan_match)
    also have "\<dots> = Id (repl ?u) # uuid_scan (re_sub_uuid repl (drop 36 (c # cs)))"
      using len by (simp add: sub)
    also have "\<dots> = Id (repl ?u) # map (relabel repl) (uuid_scan (drop 36 (c # cs)))"
      using 2(1) [OF True] by simp
    also have "\<dots> = map (relabel repl) (uuid_scan (c # cs))"
      using uuid_scan_match [OF True] by (simp add: relabel_def)
    finally show ?thesis .
  next
    case False
    have sub: "re_sub_uuid repl (c # cs) = c # re_sub_uuid repl cs"
      using False by (rule re_sub_uuid_no_match)
    have "map class_of (take 36 (c # re_sub_uuid repl cs)) = map class_of (take 36 (c # cs))"
      using re_sub_uuid_classes [OF ks, of cs] by (simp add: take_map [symmetric] del: take_map)
    with False have "\<not> uuid_shape (take 36 (c # re_sub_uuid repl cs))"
      by (simp add: uuid_shape_def)
    then have "uuid_scan (c # re_sub_uuid repl cs) = Plain c # uuid_scan (re_sub_uuid repl cs)"
      by (rule uuid_scan_no_match)
    with 2(2) [OF False] uuid_scan_no_match [OF False] show ?thesis
      by (simp add: sub relabel_def)
  qed
qed

lemma re_sub_uuid_twice:
  assumes "keeps_shape f"
  shows "re_sub_uuid g (re_sub_uuid f t) = re_sub_uuid (\<lambda>u. g (f u)) t"
proof -
  have "render g (relabel f seg) = render (\<lambda>u. g (f u)) seg" for seg
    by (cases seg) (simp_all add: render_def relabel_def)
  then have "map (render g) (map (relabel f) segs) = map (render (\<lambda>u. g (f u))) segs" for segs
    by simp
  moreover have "re_sub_uuid g (re_sub_uuid f t) = concat (map (render g) (uuid_scan (re_sub_uuid f t)))"
    by (rule re_sub_uuid_render)
  ultimately show ?thesis
    by (simp only: uuid_scan_re_sub_uuid [OF assms] re_sub_uuid_render [of "\<lambda>u. g (f u)"])
qed

lemma re_sub_uuid_fixed:
  assumes "\<forall>u \<in> set (ids_of (uuid_scan t)). h u = u"
  shows "re_sub_uuid h t = t"
proof -
  have "map (render h) segs = map (render (\<lambda>u. u)) segs" if "\<forall>u \<in> set (ids_of segs). h u = u" for segs
    using that
  proof (induction segs)
    case Nil
    then show ?case by simp
  next
    case (Cons seg segs)
    then show ?case by (cases seg) (simp_all add: render_def)
  qed
  with assms have "map (render h) (uuid_scan t) = map (render (\<lambda>u. u)) (uuid_scan t)"
    by blast
  then have "re_sub_uuid h t = concat (map (render (\<lambda>u. u)) (uuid_scan t))"
    by (simp only: re_sub_uuid_render)
  then show ?thesis
    by (simp only: scan_concat)
qed

subsection \<open>A mapping and its inverse\<close>

lemma replace_id_keeps_shape:
  assumes "\<forall>kv \<in> set m. uuid_shape (snd kv)"
  shows "keeps_shape (replace_id m)"
  unfolding keeps_shape_def replace_id_def
proof (intro allI impI)
  fix u
  assume u: "uuid_shape u"
  show "uuid_shape (case map_of m u of None \<Rightarrow> u | Some new_id \<Rightarrow> new_id)"
  proof (cases "map_of m u")
    case None
    with u show ?thesis by simp
  next
    case (Some v)
    then have "(u, v) \<in> set m" by (rule map_of_SomeD)
    with assms have "uuid_shape v" by fastforce
    with Some show ?thesis by simp
  qed
qed

lemma inverse_mapping_set: "(v, k) \<in> set (inverse_mapping m) = ((k, v) \<in> set m)"
  by (auto simp: inverse_mapping_def)

lemma replace_id_inverse:
  assumes keys: "distinct (map fst m)"
    and closed: "u \<in> fst ` set m \<longrightarrow> u \<in> snd ` set m"
  shows "replace_id m (replace_id (inverse_mapping m) u) = u"
proof (cases "map_of (inverse_mapping m) u")
  case None
  then have "u \<notin> fst ` set (inverse_mapping m)"
    by (simp add: map_of_eq_None_iff)
  moreover have "fst ` set (inverse_mapping m) = snd ` set m"
    by (force simp: inverse_mapping_def)
  ultimately have "u \<notin> fst ` set m" using closed by simp
  then have "map_of m u = None" by (simp add: map_of_eq_None_iff)
  with None show ?thesis by (simp add: replace_id_def)
next
  case (Some k)
  then have "(u, k) \<in> set (inverse_mapping m)" by (rule map_of_SomeD)
  then have "(k, u) \<in> set m" by (simp add: inverse_mapping_set)
  with keys have "map_of m k = Some u" by simp
  with Some show ?thesis by (simp add: replace_id_def)
qed

text \<open>The two substitutions on a text, one after the other.\<close>

lemma re_sub_uuid_inverse:
  assumes keys: "distinct (map fst m)"
    and shaped: "\<forall>kv \<in> set m. uuid_shape (fst kv) \<and> uuid_shape (snd kv)"
    and closed: "\<forall>u \<in> set (ids_of (uuid_scan t)). u \<in> fst ` set m \<longrightarrow> u \<in> snd ` set m"
  shows "re_sub_uuid (replace_id m) (re_sub_uuid (replace_id (inverse_mapping m)) t) = t"
proof -
  have "\<forall>kv \<in> set (inverse_mapping m). uuid_shape (snd kv)"
    using shaped by (auto simp: inverse_mapping_def)
  then have "keeps_shape (replace_id (inverse_mapping m))"
    by (rule replace_id_keeps_shape)
  then have "re_sub_uuid (replace_id m) (re_sub_uuid (replace_id (inverse_mapping m)) t)
      = re_sub_uuid (\<lambda>u. replace_id m (replace_id (inverse_mapping m) u)) t"
    by (rule re_sub_uuid_twice)
  also have "\<dots> = t"
    using closed by (intro re_sub_uuid_fixed ballI replace_id_inverse [OF keys]) simp
  finally show ?thesis .
qed

subsection \<open>The scan and the pieces of a text\<close>

lemma uuid_shape_take_append:
  assumes "starts_other b"
  shows "uuid_shape (take 36 (a @ b)) = uuid_shape (take 36 a)"
proof (cases "36 \<le> length a")
  case True
  then show ?thesis by simp
next
  case False
  then have short: "length a < 36" by simp
  then have na: "\<not> uuid_shape (take 36 a)"
    using uuid_shape_length [of "take 36 a"] by auto
  have "\<not> uuid_shape (take 36 (a @ b))"
  proof (cases b)
    case Nil
    with na show ?thesis by simp
  next
    case (Cons c cs)
    with assms have oc: "class_of c = OtherChar" by (simp add: starts_other_def)
    from short obtain n where "36 - length a = Suc n"
      by (cases "36 - length a") simp_all
    with Cons have "c \<in> set (take 36 (a @ b))" by simp
    with oc show ?thesis using uuid_shape_no_other by blast
  qed
  with na show ?thesis by simp
qed

lemma uuid_scan_append:
  assumes "starts_other b"
  shows "uuid_scan (a @ b) = uuid_scan a @ uuid_scan b"
proof (induction a rule: uuid_scan.induct)
  case 1
  then show ?case by simp
next
  case (2 c cs)
  show ?case
  proof (cases "uuid_shape (take 36 (c # cs))")
    case True
    then have len: "36 \<le> length (c # cs)"
      using uuid_shape_length [of "take 36 (c # cs)"] by simp
    from True have "uuid_shape (take 36 ((c # cs) @ b))"
      using uuid_shape_take_append [OF assms, of "c # cs"] by simp
    then have "uuid_scan ((c # cs) @ b) = Id (take 36 ((c # cs) @ b)) # uuid_scan (drop 36 ((c # cs) @ b))"
      by (rule uuid_scan_match)
    also have "\<dots> = Id (take 36 (c # cs)) # uuid_scan (drop 36 (c # cs) @ b)"
      using len by simp
    also have "\<dots> = Id (take 36 (c # cs)) # uuid_scan (drop 36 (c # cs)) @ uuid_scan b"
      using 2(1) [OF True] by simp
    also have "\<dots> = uuid_scan (c # cs) @ uuid_scan b"
      using uuid_scan_match [OF True] by simp
    finally show ?thesis .
  next
    case False
    then have "\<not> uuid_shape (take 36 (c # (cs @ b)))"
      using uuid_shape_take_append [OF assms, of "c # cs"] by simp
    then have "uuid_scan (c # (cs @ b)) = Plain c # uuid_scan (cs @ b)"
      by (rule uuid_scan_no_match)
    with 2(2) [OF False] uuid_scan_no_match [OF False] show ?thesis by simp
  qed
qed

lemma uuid_scan_short: "length t < 36 \<Longrightarrow> uuid_scan t = map Plain t"
proof (induction t)
  case Nil
  then show ?case by simp
next
  case (Cons c cs)
  then have "\<not> uuid_shape (take 36 (c # cs))"
    using uuid_shape_length [of "take 36 (c # cs)"] by auto
  then have "uuid_scan (c # cs) = Plain c # uuid_scan cs" by (rule uuid_scan_no_match)
  with Cons show ?case by simp
qed

lemma uuid_pattern_8: "uuid_pattern ! 8 = Hyphen"
  by (simp add: uuid_pattern_def nth_append)

lemma class_of_Hyphen: "class_of c = Hyphen \<Longrightarrow> c = CHR ''-''"
  by (simp add: class_of_def Let_def split: if_splits)

lemma uuid_shape_hyphen: "uuid_shape u \<Longrightarrow> u ! 8 = CHR ''-''"
proof -
  assume a: "uuid_shape u"
  then have "length u = 36" by (rule uuid_shape_length)
  then have "map class_of u ! 8 = class_of (u ! 8)" by simp
  with a have "class_of (u ! 8) = Hyphen"
    by (simp add: uuid_shape_def uuid_pattern_8)
  then show ?thesis by (rule class_of_Hyphen)
qed

text \<open>A text with no hyphen after its first character has no match.\<close>

lemma uuid_scan_no_hyphen: "CHR ''-'' \<notin> set (tl t) \<Longrightarrow> uuid_scan t = map Plain t"
proof (induction t)
  case Nil
  then show ?case by simp
next
  case (Cons c cs)
  have "\<not> uuid_shape (take 36 (c # cs))"
  proof
    assume sh: "uuid_shape (take 36 (c # cs))"
    then have len: "length (take 36 (c # cs)) = 36" by (rule uuid_shape_length)
    from sh have "take 36 (c # cs) ! 8 = CHR ''-''" by (rule uuid_shape_hyphen)
    then have "(c # cs) ! 8 = CHR ''-''" by simp
    then have "cs ! 7 = CHR ''-''" by simp
    moreover from len have "7 < length cs" by simp
    ultimately have "CHR ''-'' \<in> set cs" by (metis nth_mem)
    with Cons.prems show False by simp
  qed
  then have "uuid_scan (c # cs) = Plain c # uuid_scan cs" by (rule uuid_scan_no_match)
  moreover have "CHR ''-'' \<notin> set (tl cs)"
    using Cons.prems by (cases cs) simp_all
  ultimately show ?case using Cons.IH by simp
qed

subsection \<open>Strings\<close>

lemma escape_char_ord:
  assumes "32 \<le> ord c" and "ord c \<le> 126" and "ord c \<noteq> 34" and "ord c \<noteq> 92"
  shows "escape_char c = [c]"
proof -
  have "c \<noteq> CHR 0x22" using assms(3) by (auto simp: ord_def)
  moreover have "c \<noteq> CHR 0x5C" using assms(4) by (auto simp: ord_def)
  moreover have "c \<noteq> CHR 0x0A" using assms(1) by (auto simp: ord_def)
  moreover have "c \<noteq> CHR 0x0D" using assms(1) by (auto simp: ord_def)
  moreover have "c \<noteq> CHR 0x09" using assms(1) by (auto simp: ord_def)
  moreover have "c \<noteq> CHR 0x08" using assms(1) by (auto simp: ord_def)
  moreover have "c \<noteq> CHR 0x0C" using assms(1) by (auto simp: ord_def)
  ultimately show ?thesis
    using assms(1,2) by (simp add: escape_char_def)
qed

lemma class_of_plain:
  assumes "class_of c \<noteq> OtherChar"
  shows "escape_char c = [c]"
proof -
  from assms have "(48 \<le> ord c \<and> ord c \<le> 57) \<or> (97 \<le> ord c \<and> ord c \<le> 102) \<or> c = CHR ''-''"
    unfolding class_of_def Let_def by (metis char_class.distinct(3) char_class.distinct(5))
  moreover have "ord (CHR ''-'') = 45" by (simp add: ord_def)
  ultimately have "32 \<le> ord c \<and> ord c \<le> 126 \<and> ord c \<noteq> 34 \<and> ord c \<noteq> 92"
    by auto
  then show ?thesis
    by (simp add: escape_char_ord)
qed

lemma escape_char_cases:
  "escape_char c = [c] \<or> (\<exists>t. escape_char c = CHR 0x5C # t)"
  by (simp add: escape_char_def)

lemma class_of_special: "class_of (CHR 0x5C) = OtherChar" "class_of (CHR 0x22) = OtherChar"
  by (simp_all add: class_of_def ord_def)

lemma esc_no_other: "\<forall>c \<in> set a. class_of c \<noteq> OtherChar \<Longrightarrow> esc a = a"
  by (induction a) (simp_all add: class_of_plain)

lemma esc_shaped: "uuid_shape u \<Longrightarrow> esc u = u"
  using uuid_shape_no_other by (intro esc_no_other) blast

text \<open>
  An escape sequence starts with a backslash: a stretch of hex digits and hyphens at
  the start of a serialized string is a stretch of the string itself.
\<close>

lemma esc_prefix:
  assumes "\<forall>c \<in> set (take n (esc s)). class_of c \<noteq> OtherChar"
    and "n \<le> length (esc s)"
  shows "take n (esc s) = take n s"
  using assms
proof (induction s arbitrary: n)
  case Nil
  then show ?case by simp
next
  case (Cons c s)
  show ?case
  proof (cases n)
    case 0
    then show ?thesis by simp
  next
    case (Suc k)
    have ec: "escape_char c = [c]"
    proof (rule ccontr)
      assume "escape_char c \<noteq> [c]"
      then obtain t where t: "escape_char c = CHR 0x5C # t"
        using escape_char_cases [of c] by blast
      then have "CHR 0x5C \<in> set (take n (esc (c # s)))"
        using Suc by simp
      with Cons.prems(1) class_of_special(1) show False by metis
    qed
    have "take k (esc s) = take k s"
    proof (rule Cons.IH)
      show "\<forall>c \<in> set (take k (esc s)). class_of c \<noteq> OtherChar"
        using Cons.prems(1) Suc ec by simp
      show "k \<le> length (esc s)"
        using Cons.prems(2) Suc ec by simp
    qed
    with Suc ec show ?thesis by simp
  qed
qed

lemma esc_match:
  assumes sh: "uuid_shape (take 36 s)"
  shows "take 36 (esc s) = take 36 s" and "drop 36 (esc s) = esc (drop 36 s)"
proof -
  have "esc s = esc (take 36 s @ drop 36 s)" by simp
  also have "\<dots> = esc (take 36 s) @ esc (drop 36 s)" by (simp only: map_append concat_append)
  also have "\<dots> = take 36 s @ esc (drop 36 s)" using sh by (simp only: esc_shaped)
  finally have e: "esc s = take 36 s @ esc (drop 36 s)" .
  have l: "length (take 36 s) = 36" using sh by (rule uuid_shape_length)
  from e l show "take 36 (esc s) = take 36 s" by (metis append_eq_conv_conj)
  from e l show "drop 36 (esc s) = esc (drop 36 s)" by (metis append_eq_conv_conj)
qed

lemma uuid_shape_esc:
  "uuid_shape (take 36 (esc s)) = uuid_shape (take 36 s)"
proof
  assume sh: "uuid_shape (take 36 (esc s))"
  then have "length (take 36 (esc s)) = 36" by (rule uuid_shape_length)
  then have "36 \<le> length (esc s)" by simp
  moreover have "\<forall>c \<in> set (take 36 (esc s)). class_of c \<noteq> OtherChar"
    using sh uuid_shape_no_other by blast
  ultimately have "take 36 (esc s) = take 36 s"
    using esc_prefix by blast
  with sh show "uuid_shape (take 36 s)" by simp
next
  assume sh: "uuid_shape (take 36 s)"
  then show "uuid_shape (take 36 (esc s))"
    using esc_match(1) [OF sh] by simp
qed

lemma esc_segment_simps:
  "esc_segment (Id u) = [Id u]"
  "esc_segment (Plain c) = map Plain (escape_char c)"
  by (simp_all add: esc_segment_def)

lemma render_simps:
  "render repl (Id u) = repl u"
  "render repl (Plain c) = [c]"
  by (simp_all add: render_def)

lemma render_Plain: "concat (map (render repl) (map Plain xs)) = xs"
  by (induction xs) (simp_all add: render_simps)

lemma scan_plain_prefix:
  "\<forall>k < length e. \<not> uuid_shape (take 36 (drop k e @ r)) \<Longrightarrow> uuid_scan (e @ r) = map Plain e @ uuid_scan r"
proof (induction e)
  case Nil
  then show ?case by simp
next
  case (Cons x e)
  from Cons.prems have "\<not> uuid_shape (take 36 (drop 0 (x # e) @ r))" by blast
  then have "\<not> uuid_shape (take 36 (x # (e @ r)))" by simp
  then have "uuid_scan (x # (e @ r)) = Plain x # uuid_scan (e @ r)" by (rule uuid_scan_no_match)
  moreover have "\<forall>k < length e. \<not> uuid_shape (take 36 (drop k e @ r))"
  proof (intro allI impI)
    fix k assume "k < length e"
    then have "Suc k < length (x # e)" by simp
    with Cons.prems have "\<not> uuid_shape (take 36 (drop (Suc k) (x # e) @ r))" by blast
    then show "\<not> uuid_shape (take 36 (drop k e @ r))" by simp
  qed
  ultimately show ?case using Cons.IH by simp
qed

lemma escape_safe_drop: "escape_safe s \<Longrightarrow> escape_safe (drop n s)"
proof (induction s arbitrary: n)
  case Nil
  then show ?case by simp
next
  case (Cons c s)
  then show ?case by (cases n) simp_all
qed

lemma escaped_prefix_plain:
  assumes safe: "escape_safe_at c r"
    and first: "\<not> uuid_shape (take 36 (escape_char c @ r))"
  shows "uuid_scan (escape_char c @ r) = map Plain (escape_char c) @ uuid_scan r"
proof (rule scan_plain_prefix, intro allI impI)
  fix k assume k: "k < length (escape_char c)"
  show "\<not> uuid_shape (take 36 (drop k (escape_char c) @ r))"
  proof (cases k)
    case 0
    with first show ?thesis by simp
  next
    case (Suc j)
    with k have "k \<in> set [1..<length (escape_char c)]" by simp
    with safe show ?thesis
      unfolding escape_safe_at_def list_all_iff by blast
  qed
qed

text \<open>
  Where no match begins inside an escape sequence, the scan of the serialized string
  follows the scan of the string.
\<close>

lemma uuid_scan_esc:
  "escape_safe s \<Longrightarrow> uuid_scan (esc s) = concat (map esc_segment (uuid_scan s))"
proof (induction s rule: uuid_scan.induct)
  case 1
  then show ?case by simp
next
  case (2 c cs)
  show ?case
  proof (cases "uuid_shape (take 36 (c # cs))")
    case True
    have pl: "escape_safe (drop 36 (c # cs))"
      using "2.prems" by (rule escape_safe_drop)
    from True have "uuid_shape (take 36 (esc (c # cs)))"
      by (simp only: uuid_shape_esc)
    then have "uuid_scan (esc (c # cs)) = Id (take 36 (esc (c # cs))) # uuid_scan (drop 36 (esc (c # cs)))"
      by (rule uuid_scan_match)
    also have "\<dots> = Id (take 36 (c # cs)) # uuid_scan (esc (drop 36 (c # cs)))"
      using esc_match [OF True] by simp
    also have "\<dots> = Id (take 36 (c # cs)) # concat (map esc_segment (uuid_scan (drop 36 (c # cs))))"
      using 2(1) [OF True pl] by simp
    also have "\<dots> = concat (map esc_segment (uuid_scan (c # cs)))"
      using uuid_scan_match [OF True] by (simp add: esc_segment_simps)
    finally show ?thesis .
  next
    case False
    from "2.prems" have pc: "escape_safe_at c (esc cs)" and ps: "escape_safe cs" by simp_all
    have ih: "uuid_scan (esc cs) = concat (map esc_segment (uuid_scan cs))"
      using 2(2) [OF False ps] .
    have "\<not> uuid_shape (take 36 (esc (c # cs)))"
      using False uuid_shape_esc [of "c # cs"] by blast
    then have ns: "\<not> uuid_shape (take 36 (escape_char c @ esc cs))" by simp
    have "uuid_scan (escape_char c @ esc cs) = map Plain (escape_char c) @ uuid_scan (esc cs)"
      using pc ns by (rule escaped_prefix_plain)
    then show ?thesis
      using ih uuid_scan_no_match [OF False] by (simp add: esc_segment_simps)
  qed
qed

lemma uuid_scan_ids_shaped: "u \<in> set (ids_of (uuid_scan t)) \<Longrightarrow> uuid_shape u"
proof (induction t rule: uuid_scan.induct)
  case 1
  then show ?case by simp
next
  case (2 c cs)
  show ?case
  proof (cases "uuid_shape (take 36 (c # cs))")
    case True
    with "2.prems" uuid_scan_match [OF True] 2(1) [OF True] show ?thesis by auto
  next
    case False
    with "2.prems" uuid_scan_no_match [OF False] 2(2) [OF False] show ?thesis by auto
  qed
qed

lemma ids_of_append: "ids_of (xs @ ys) = ids_of xs @ ids_of ys"
  by (induction xs rule: ids_of.induct) simp_all

lemma ids_of_Plain: "ids_of (map Plain cs) = []"
  by (induction cs) simp_all

lemma ids_of_esc_segments: "ids_of (concat (map esc_segment segs)) = ids_of segs"
  by (induction segs rule: ids_of.induct) (simp_all add: esc_segment_simps ids_of_append ids_of_Plain)

lemma render_esc_segments:
  assumes "\<forall>u \<in> set (ids_of segs). esc (repl u) = repl u"
  shows "concat (map (render repl) (concat (map esc_segment segs))) = esc (concat (map (render repl) segs))"
  using assms
proof (induction segs rule: ids_of.induct)
  case 1
  then show ?case by simp
next
  case (2 u segs)
  then show ?case by (simp add: esc_segment_simps render_simps)
next
  case (3 c segs)
  then show ?case by (simp add: esc_segment_simps render_simps render_Plain del: map_map)
qed

lemma re_sub_uuid_esc:
  assumes pl: "escape_safe s" and ks: "keeps_shape repl"
  shows "re_sub_uuid repl (esc s) = esc (re_sub_uuid repl s)"
proof -
  have "\<forall>u \<in> set (ids_of (uuid_scan s)). esc (repl u) = repl u"
    using ks uuid_scan_ids_shaped esc_shaped unfolding keeps_shape_def by blast
  then show ?thesis
    by (simp only: re_sub_uuid_render uuid_scan_esc [OF pl] render_esc_segments)
qed

lemma ids_esc:
  "escape_safe s \<Longrightarrow> ids_of (uuid_scan (esc s)) = ids_of (uuid_scan s)"
  by (simp only: uuid_scan_esc ids_of_esc_segments)

subsection \<open>Digits\<close>

lemma below_10: "(d::nat) < 10 \<Longrightarrow> d = 0 \<or> d = 1 \<or> d = 2 \<or> d = 3 \<or> d = 4 \<or> d = 5 \<or> d = 6 \<or> d = 7 \<or> d = 8 \<or> d = 9"
  by arith

lemma digit_char_props:
  assumes "d < 10"
  shows "is_digit (digit_char d)" and "digit_val (digit_char d) = d" and "digit_char d \<noteq> CHR ''-''"
    and "(digit_char d = CHR ''0'') = (d = 0)"
  using below_10 [OF assms]
  by (auto simp: digit_char_def is_digit_def digit_val_def ord_def)

lemma str_of_nat_digits: "c \<in> set (str_of_nat n) \<Longrightarrow> is_digit c \<and> c \<noteq> CHR ''-''"
proof (induction n rule: str_of_nat.induct)
  case (1 n)
  show ?case
  proof (cases "n < 10")
    case True
    with "1.prems" show ?thesis
      by (simp add: str_of_nat.simps [of n] digit_char_props)
  next
    case False
    have "n mod 10 < 10" by simp
    with False "1.prems" "1.IH" show ?thesis
      by (auto simp: str_of_nat.simps [of n] digit_char_props)
  qed
qed

lemma in_set_tl: "x \<in> set (tl xs) \<Longrightarrow> x \<in> set xs"
  by (cases xs) simp_all

lemma str_of_int_no_hyphen: "CHR ''-'' \<notin> set (tl (str_of_int i))"
proof
  assume "CHR ''-'' \<in> set (tl (str_of_int i))"
  then have "CHR ''-'' \<in> set (str_of_nat (nat (- i))) \<or> CHR ''-'' \<in> set (str_of_nat (nat i))"
    by (auto simp: str_of_int_def dest: in_set_tl split: if_splits)
  then show False using str_of_nat_digits by blast
qed

lemma sub_Nil: "re_sub_uuid f [] = []"
  by (simp add: re_sub_uuid_def)

subsection \<open>The substitution and the ids, piece by piece\<close>

lemma sub_skip: "class_of c \<noteq> HexDigit \<Longrightarrow> re_sub_uuid f (c # t) = c # re_sub_uuid f t"
  by (simp add: re_sub_uuid_render uuid_scan_skip render_simps)

lemma sub_append: "starts_other b \<Longrightarrow> re_sub_uuid f (a @ b) = re_sub_uuid f a @ re_sub_uuid f b"
  by (simp add: re_sub_uuid_render uuid_scan_append)

lemma sub_plain: "uuid_scan t = map Plain t \<Longrightarrow> re_sub_uuid f t = t"
  by (simp only: re_sub_uuid_render render_Plain)

lemma ids_skip: "class_of c \<noteq> HexDigit \<Longrightarrow> ids (c # t) = ids t"
  by (simp add: ids_def uuid_scan_skip)

lemma ids_append: "starts_other b \<Longrightarrow> ids (a @ b) = ids a \<union> ids b"
  by (simp add: ids_def uuid_scan_append ids_of_append)

lemma ids_plain: "uuid_scan t = map Plain t \<Longrightarrow> ids t = {}"
  by (simp add: ids_def ids_of_Plain)

lemma ids_Nil: "ids [] = {}"
  by (simp add: ids_def)

lemma class_simps:
  "class_of (CHR 0x22) \<noteq> HexDigit" "class_of (CHR '','') \<noteq> HexDigit" "class_of (CHR '' '') \<noteq> HexDigit"
  "class_of (CHR '':'') \<noteq> HexDigit" "class_of (CHR ''['') \<noteq> HexDigit" "class_of (CHR '']'') \<noteq> HexDigit"
  "class_of (CHR ''{'') \<noteq> HexDigit" "class_of (CHR ''}'') \<noteq> HexDigit"
  by (simp_all add: class_of_def ord_def)

lemma starts_other_simps:
  "starts_other []" "starts_other (CHR 0x22 # t)" "starts_other (CHR '','' # t)" "starts_other (CHR '':'' # t)"
  "starts_other (CHR '']'' # t)" "starts_other (CHR ''}'' # t)"
  by (simp_all add: starts_other_def class_of_def ord_def)

lemma sub_encode_str:
  assumes "escape_safe s" and "keeps_shape f"
  shows "re_sub_uuid f (encode_str s) = encode_str (re_sub_uuid f s)"
proof -
  have "re_sub_uuid f (encode_str s) = CHR 0x22 # re_sub_uuid f (esc s @ [CHR 0x22])"
    by (simp add: encode_str_def sub_skip class_simps)
  also have "\<dots> = CHR 0x22 # re_sub_uuid f (esc s) @ re_sub_uuid f [CHR 0x22]"
    by (simp only: sub_append starts_other_simps)
  also have "\<dots> = CHR 0x22 # esc (re_sub_uuid f s) @ [CHR 0x22]"
    using assms by (simp add: re_sub_uuid_esc sub_skip class_simps sub_Nil)
  finally show ?thesis by (simp add: encode_str_def)
qed

lemma ids_encode_str:
  assumes "escape_safe s"
  shows "ids (encode_str s) = ids s"
proof -
  have "ids (encode_str s) = ids (esc s @ [CHR 0x22])"
    by (simp add: encode_str_def ids_skip class_simps)
  also have "\<dots> = ids (esc s) \<union> ids [CHR 0x22]"
    by (simp only: ids_append starts_other_simps)
  also have "\<dots> = ids s"
    using assms by (simp add: ids_def ids_esc uuid_scan_short)
  finally show ?thesis .
qed

lemma sub_join:
  "re_sub_uuid f (join '', '' ds) = join '', '' (map (re_sub_uuid f) ds)"
proof (induction "'', ''" ds rule: join.induct)
  case 1
  then show ?case by (simp add: sub_Nil)
next
  case (2 x)
  then show ?case by simp
next
  case (3 x y ys)
  have "re_sub_uuid f (x @ '', '' @ join '', '' (y # ys))
      = re_sub_uuid f x @ re_sub_uuid f ('', '' @ join '', '' (y # ys))"
    by (rule sub_append) (simp add: starts_other_simps)
  also have "\<dots> = re_sub_uuid f x @ '', '' @ re_sub_uuid f (join '', '' (y # ys))"
    by (simp add: sub_skip class_simps)
  finally show ?case using 3 by simp
qed

lemma ids_join: "ids (join '', '' ds) = \<Union> (ids ` set ds)"
proof (induction "'', ''" ds rule: join.induct)
  case 1
  then show ?case by (simp add: ids_Nil)
next
  case (2 x)
  then show ?case by simp
next
  case (3 x y ys)
  have "ids (x @ '', '' @ join '', '' (y # ys)) = ids x \<union> ids ('', '' @ join '', '' (y # ys))"
    by (rule ids_append) (simp add: starts_other_simps)
  also have "\<dots> = ids x \<union> ids (join '', '' (y # ys))"
    by (simp add: ids_skip class_simps)
  finally show ?case using 3 by simp
qed

subsection \<open>The substitution on a serialized payload\<close>

lemma sub_json_dumps:
  assumes ks: "keeps_shape f"
  shows "safe_strings q \<Longrightarrow> re_sub_uuid f (json_dumps q) = json_dumps (map_strings (re_sub_uuid f) q)"
proof (induction q)
  case JNull
  then show ?case by (simp add: sub_plain uuid_scan_short)
next
  case (JBool b)
  then show ?case by (simp add: sub_plain uuid_scan_short)
next
  case (JInt i)
  then show ?case by (simp add: sub_plain uuid_scan_no_hyphen str_of_int_no_hyphen)
next
  case (JStr s)
  then show ?case using ks by (simp add: sub_encode_str safe_strings_def)
next
  case (JArr xs)
  have el: "re_sub_uuid f (json_dumps x) = json_dumps (map_strings (re_sub_uuid f) x)" if "x \<in> set xs" for x
    using that JArr by (auto simp: safe_strings_def)
  have "re_sub_uuid f (json_dumps (JArr xs)) = CHR ''['' # re_sub_uuid f (join '', '' (map json_dumps xs) @ '']'')"
    by (simp add: sub_skip class_simps)
  also have "\<dots> = CHR ''['' # re_sub_uuid f (join '', '' (map json_dumps xs)) @ re_sub_uuid f '']''"
    by (simp only: sub_append starts_other_simps)
  also have "\<dots> = CHR ''['' # join '', '' (map (re_sub_uuid f) (map json_dumps xs)) @ '']''"
    by (simp add: sub_join sub_skip class_simps sub_Nil)
  also have "map (re_sub_uuid f) (map json_dumps xs) = map json_dumps (map (map_strings (re_sub_uuid f)) xs)"
    using el by simp
  finally show ?case by simp
next
  case (JObj kvs)
  let ?member = "\<lambda>kv. encode_str (fst kv) @ '': '' @ json_dumps (snd kv)"
  let ?g = "\<lambda>kv. (re_sub_uuid f (fst kv), map_strings (re_sub_uuid f) (snd kv))"
  have mem: "re_sub_uuid f (?member kv) = ?member (?g kv)" if "kv \<in> set kvs" for kv
  proof -
    obtain k v where kv: "kv = (k, v)" by (cases kv)
    with that have "v \<in> Basic_BNFs.snds kv" by simp
    moreover have "safe_strings v" and pk: "escape_safe k"
      using JObj.prems that kv by (force simp: safe_strings_def)+
    ultimately have ih: "re_sub_uuid f (json_dumps v) = json_dumps (map_strings (re_sub_uuid f) v)"
      using JObj.IH that by blast
    have "re_sub_uuid f (encode_str k @ '': '' @ json_dumps v)
        = re_sub_uuid f (encode_str k) @ re_sub_uuid f ('': '' @ json_dumps v)"
      by (rule sub_append) (simp add: starts_other_simps)
    also have "\<dots> = encode_str (re_sub_uuid f k) @ '': '' @ re_sub_uuid f (json_dumps v)"
      using pk ks by (simp add: sub_encode_str sub_skip class_simps)
    finally show ?thesis using ih kv by simp
  qed
  have "re_sub_uuid f (json_dumps (JObj kvs)) = CHR ''{'' # re_sub_uuid f (join '', '' (map ?member kvs) @ ''}'')"
    by (simp add: sub_skip class_simps)
  also have "\<dots> = CHR ''{'' # re_sub_uuid f (join '', '' (map ?member kvs)) @ re_sub_uuid f ''}''"
    by (simp only: sub_append starts_other_simps)
  also have "\<dots> = CHR ''{'' # join '', '' (map (re_sub_uuid f) (map ?member kvs)) @ ''}''"
    by (simp add: sub_join sub_skip class_simps sub_Nil)
  also have "map (re_sub_uuid f) (map ?member kvs) = map ?member (map ?g kvs)"
    using mem by simp
  finally show ?case by simp
qed

lemma ids_json_dumps:
  "safe_strings q \<Longrightarrow> s \<in> strings_of q \<Longrightarrow> ids s \<subseteq> ids (json_dumps q)"
proof (induction q)
  case JNull
  then show ?case by simp
next
  case (JBool b)
  then show ?case by simp
next
  case (JInt i)
  then show ?case by simp
next
  case (JStr s')
  then show ?case by (simp add: ids_encode_str safe_strings_def)
next
  case (JArr xs)
  from JArr.prems(2) obtain x where x: "x \<in> set xs" and sx: "s \<in> strings_of x" by auto
  with JArr have "ids s \<subseteq> ids (json_dumps x)" by (auto simp: safe_strings_def)
  also have "\<dots> \<subseteq> ids (join '', '' (map json_dumps xs))"
    using x by (auto simp: ids_join)
  also have "\<dots> \<subseteq> ids (join '', '' (map json_dumps xs)) \<union> ids '']''" by simp
  also have "\<dots> = ids (join '', '' (map json_dumps xs) @ '']'')"
    by (simp only: ids_append starts_other_simps)
  also have "\<dots> = ids (json_dumps (JArr xs))"
    by (simp add: ids_skip class_simps)
  finally show ?case .
next
  case (JObj kvs)
  let ?member = "\<lambda>kv. encode_str (fst kv) @ '': '' @ json_dumps (snd kv)"
  from JObj.prems(2) obtain k v where kv: "(k, v) \<in> set kvs" and sk: "s = k \<or> s \<in> strings_of v"
    by auto
  have pk: "escape_safe k" and pv: "safe_strings v"
    using JObj.prems(1) kv by (force simp: safe_strings_def)+
  have "ids (?member (k, v)) = ids (encode_str k) \<union> ids ('': '' @ json_dumps v)"
    by (simp only: fst_conv snd_conv) (rule ids_append, simp add: starts_other_simps)
  also have "\<dots> = ids k \<union> ids (json_dumps v)"
    using pk by (simp add: ids_encode_str ids_skip class_simps)
  finally have m: "ids (?member (k, v)) = ids k \<union> ids (json_dumps v)" .
  have "ids s \<subseteq> ids k \<union> ids (json_dumps v)"
  proof (cases "s = k")
    case True
    then show ?thesis by simp
  next
    case False
    with sk have "s \<in> strings_of v" by simp
    moreover have "v \<in> Basic_BNFs.snds (k, v)" by simp
    ultimately have "ids s \<subseteq> ids (json_dumps v)"
      using JObj.IH kv pv by blast
    then show ?thesis by auto
  qed
  also have "\<dots> \<subseteq> ids (join '', '' (map ?member kvs))"
    using kv m by (force simp: ids_join)
  also have "\<dots> \<subseteq> ids (join '', '' (map ?member kvs)) \<union> ids ''}''" by simp
  also have "\<dots> = ids (join '', '' (map ?member kvs) @ ''}'')"
    by (simp only: ids_append starts_other_simps)
  also have "\<dots> = ids (json_dumps (JObj kvs))"
    by (simp add: ids_skip class_simps)
  finally show ?case .
qed

subsection \<open>The tokens of a serialized payload\<close>

lemma below_16:
  "(d::nat) < 16 \<Longrightarrow> d = 0 \<or> d = 1 \<or> d = 2 \<or> d = 3 \<or> d = 4 \<or> d = 5 \<or> d = 6 \<or> d = 7 \<or> d = 8
     \<or> d = 9 \<or> d = 10 \<or> d = 11 \<or> d = 12 \<or> d = 13 \<or> d = 14 \<or> d = 15"
  by arith

lemma hex_val_hex_digit: "d < 16 \<Longrightarrow> hex_val (hex_digit d) = Some d"
  using below_16 [of d] by (auto simp: hex_val_def hex_digit_def ord_def)

lemma hex_val_zero: "hex_val (CHR ''0'') = Some 0"
  by (simp add: hex_val_def ord_def)

lemma char_of_ord: "char_of (ord c) = c"
  by (simp add: ord_def)

lemma ord_div_16: "ord c div 16 < 16"
proof -
  have "ord c < 256" unfolding ord_def by (rule nat_of_char_less_256)
  then show ?thesis by simp
qed

text \<open>The tokenizer reads an escape sequence back as the character it stands for.\<close>

lemma lex_unicode_escape:
  assumes "h < 16" and "l < 16"
  shows "lex (LStr acc) (CHR 0x5C # CHR ''u'' # CHR ''0'' # CHR ''0'' # hex_digit h # hex_digit l # t) out
    = lex (LStr (char_of (16 * h + l) # acc)) t out"
  using assms
  by (simp add: lex.simps lex_step_def hex_val_zero hex_val_hex_digit)

lemma lex_escape:
  "lex (LStr acc) (escape_char c @ t) out = lex (LStr (c # acc)) t out"
proof (cases "c = CHR 0x22 \<or> c = CHR 0x5C \<or> c = CHR 0x0A \<or> c = CHR 0x0D \<or> c = CHR 0x09 \<or> c = CHR 0x08 \<or> c = CHR 0x0C")
  case True
  then show ?thesis
    by (auto simp: escape_char_def lex.simps lex_step_def unescape_def)
next
  case False
  note special = this
  show ?thesis
  proof (cases "32 \<le> ord c \<and> ord c \<le> 126")
    case True
    with special show ?thesis
      by (simp add: escape_char_def lex.simps lex_step_def)
  next
    case False
    with special have e: "escape_char c =
        CHR 0x5C # CHR ''u'' # CHR ''0'' # CHR ''0'' # hex_digit (ord c div 16) # [hex_digit (ord c mod 16)]"
      by (simp add: escape_char_def)
    have "ord c mod 16 < 16" by simp
    with ord_div_16 [of c] show ?thesis
      using lex_unicode_escape [of "ord c div 16" "ord c mod 16" acc t out]
      by (simp add: e char_of_ord)
  qed
qed

lemma lex_string:
  "lex (LStr acc) (esc s @ CHR 0x22 # rest) out = lex LIdle rest (out @ [TStr (rev acc @ s)])"
proof (induction s arbitrary: acc)
  case Nil
  then show ?case by (simp add: lex.simps lex_step_def)
next
  case (Cons c s)
  have "lex (LStr acc) (esc (c # s) @ CHR 0x22 # rest) out = lex (LStr (c # acc)) (esc s @ CHR 0x22 # rest) out"
    using lex_escape [of acc c "esc s @ CHR 0x22 # rest"] by simp
  also have "\<dots> = lex LIdle rest (out @ [TStr (rev (c # acc) @ s)])"
    using Cons.IH .
  finally show ?case by simp
qed

lemma lex_encode_str:
  "lex LIdle (encode_str s @ rest) out = lex LIdle rest (out @ [TStr s])"
  using lex_string [of "[]" s rest out]
  by (simp add: encode_str_def lex.simps lex_step_def lex_idle_def bind_def emit_def)

lemma is_digit_cases:
  assumes "is_digit c"
  shows "c = CHR ''0'' \<or> c = CHR ''1'' \<or> c = CHR ''2'' \<or> c = CHR ''3'' \<or> c = CHR ''4''
    \<or> c = CHR ''5'' \<or> c = CHR ''6'' \<or> c = CHR ''7'' \<or> c = CHR ''8'' \<or> c = CHR ''9''"
proof -
  have eq: "ord c = ord d \<Longrightarrow> c = d" for d
    by (simp add: ord_def)
  from assms have "ord c = 48 \<or> ord c = 49 \<or> ord c = 50 \<or> ord c = 51 \<or> ord c = 52
      \<or> ord c = 53 \<or> ord c = 54 \<or> ord c = 55 \<or> ord c = 56 \<or> ord c = 57"
    unfolding is_digit_def by arith
  moreover have "ord (CHR ''0'') = 48" "ord (CHR ''1'') = 49" "ord (CHR ''2'') = 50" "ord (CHR ''3'') = 51"
    "ord (CHR ''4'') = 52" "ord (CHR ''5'') = 53" "ord (CHR ''6'') = 54" "ord (CHR ''7'') = 55"
    "ord (CHR ''8'') = 56" "ord (CHR ''9'') = 57"
    by (simp_all add: ord_def)
  ultimately show ?thesis
    using eq by metis
qed

lemma lex_idle_digit:
  assumes "is_digit c" and "c \<noteq> CHR ''0''"
  shows "lex_idle c = Inr (LNum False (digit_val c), None)"
proof -
  from is_digit_cases [OF assms(1)] assms(2)
  have "c = CHR ''1'' \<or> c = CHR ''2'' \<or> c = CHR ''3'' \<or> c = CHR ''4''
    \<or> c = CHR ''5'' \<or> c = CHR ''6'' \<or> c = CHR ''7'' \<or> c = CHR ''8'' \<or> c = CHR ''9''"
    by simp
  then show ?thesis
    by (elim disjE) (simp_all add: lex_idle_def is_digit_def ord_def)
qed

lemma lex_step_minus_digit:
  assumes "is_digit c" and "c \<noteq> CHR ''0''"
  shows "lex_step LMinus c out = Inr (LNum True (digit_val c), out)"
  using assms by (simp add: lex_step_def)

lemma lex_digits:
  "\<forall>c \<in> set cs. is_digit c \<Longrightarrow>
     lex (LNum neg v) (cs @ rest) out = lex (LNum neg (foldl (\<lambda>a c. 10 * a + digit_val c) v cs)) rest out"
  by (induction cs arbitrary: v) (simp_all add: lex_step_def)

lemma str_of_nat_value: "foldl (\<lambda>a c. 10 * a + digit_val c) 0 (str_of_nat n) = n"
proof (induction n rule: str_of_nat.induct)
  case (1 n)
  show ?case
  proof (cases "n < 10")
    case True
    then have "str_of_nat n = [digit_char n]" by (subst str_of_nat.simps) simp
    with True show ?thesis by (simp add: digit_char_props)
  next
    case False
    then have "str_of_nat n = str_of_nat (n div 10) @ [digit_char (n mod 10)]"
      by (subst str_of_nat.simps) simp
    moreover have "digit_val (digit_char (n mod 10)) = n mod 10"
      by (rule digit_char_props) simp
    ultimately show ?thesis using "1.IH" [OF False] by simp
  qed
qed

lemma str_of_nat_hd: "str_of_nat n \<noteq> [] \<and> (0 < n \<longrightarrow> hd (str_of_nat n) \<noteq> CHR ''0'')"
proof (induction n rule: str_of_nat.induct)
  case (1 n)
  show ?case
  proof (cases "n < 10")
    case True
    then have "str_of_nat n = [digit_char n]" by (subst str_of_nat.simps) simp
    with True show ?thesis by (simp add: digit_char_props)
  next
    case False
    then have "str_of_nat n = str_of_nat (n div 10) @ [digit_char (n mod 10)]"
      by (subst str_of_nat.simps) simp
    moreover from False have "0 < n div 10" by simp
    ultimately show ?thesis using "1.IH" [OF False] by simp
  qed
qed

lemma lex_after_number:
  assumes "ends_token rest"
  shows "lex (LNum neg v) rest out = lex LIdle rest (out @ [TInt (signed neg v)])"
    and "lex (LZero neg) rest out = lex LIdle rest (out @ [TInt 0])"
proof -
  have step: "lex_after_number i c out = lex_step LIdle c (out @ [TInt i])"
    if "c = CHR '','' \<or> c = CHR '']'' \<or> c = CHR ''}''" for c i
    using that by (elim disjE) (simp_all add: lex_after_number_def lex_step_def)
  have nd: "\<not> is_digit c" if "c = CHR '','' \<or> c = CHR '']'' \<or> c = CHR ''}''" for c
    using that by (elim disjE) (simp_all add: is_digit_def ord_def)
  show "lex (LNum neg v) rest out = lex LIdle rest (out @ [TInt (signed neg v)])"
  proof (cases rest)
    case Nil
    then show ?thesis by simp
  next
    case (Cons c cs)
    with assms have c: "c = CHR '','' \<or> c = CHR '']'' \<or> c = CHR ''}''" by (simp add: ends_token_def)
    have "lex_step (LNum neg v) c out = lex_step LIdle c (out @ [TInt (signed neg v)])"
      using step [OF c] nd [OF c] by (simp add: lex_step_def)
    with Cons show ?thesis by simp
  qed
  show "lex (LZero neg) rest out = lex LIdle rest (out @ [TInt 0])"
  proof (cases rest)
    case Nil
    then show ?thesis by simp
  next
    case (Cons c cs)
    with assms have c: "c = CHR '','' \<or> c = CHR '']'' \<or> c = CHR ''}''" by (simp add: ends_token_def)
    have "lex_step (LZero neg) c out = lex_step LIdle c (out @ [TInt 0])"
      using step [OF c] by (simp add: lex_step_def)
    with Cons show ?thesis by simp
  qed
qed

lemma lex_nat:
  assumes "ends_token rest"
  shows "lex LIdle (str_of_nat n @ rest) out = lex LIdle rest (out @ [TInt (int n)])"
proof (cases "n = 0")
  case True
  then have "str_of_nat n = ''0''" by (simp add: str_of_nat.simps [of 0] digit_char_def)
  then show ?thesis
    using True lex_after_number(2) [OF assms, of False out]
    by (simp add: lex_step_def lex_idle_def bind_def emit_def)
next
  case False
  obtain c cs where cc: "str_of_nat n = c # cs"
    using str_of_nat_hd [of n] by (cases "str_of_nat n") simp_all
  with False str_of_nat_hd [of n] have c0: "c \<noteq> CHR ''0''" by simp
  from cc str_of_nat_digits [of _ n] have dc: "is_digit c" and dcs: "\<forall>c \<in> set cs. is_digit c"
    by simp_all
  have "lex LIdle (str_of_nat n @ rest) out = lex (LNum False (digit_val c)) (cs @ rest) out"
    using cc lex_idle_digit [OF dc c0] by (simp add: lex_step_def bind_def emit_def)
  also have "\<dots> = lex (LNum False (foldl (\<lambda>a c. 10 * a + digit_val c) (digit_val c) cs)) rest out"
    using dcs by (rule lex_digits)
  also have "foldl (\<lambda>a c. 10 * a + digit_val c) (digit_val c) cs = n"
    using str_of_nat_value [of n] cc by simp
  finally show ?thesis
    using lex_after_number(1) [OF assms, of False n out] by (simp add: signed_def)
qed

lemma lex_neg:
  assumes "ends_token rest" and "0 < n"
  shows "lex LIdle (CHR ''-'' # str_of_nat n @ rest) out = lex LIdle rest (out @ [TInt (- int n)])"
proof -
  obtain c cs where cc: "str_of_nat n = c # cs"
    using str_of_nat_hd [of n] by (cases "str_of_nat n") simp_all
  with assms(2) str_of_nat_hd [of n] have c0: "c \<noteq> CHR ''0''" by simp
  from cc str_of_nat_digits [of _ n] have dc: "is_digit c" and dcs: "\<forall>c \<in> set cs. is_digit c"
    by simp_all
  have "lex LIdle (CHR ''-'' # str_of_nat n @ rest) out = lex LMinus (str_of_nat n @ rest) out"
    by (simp add: lex_step_def lex_idle_def bind_def emit_def)
  also have "\<dots> = lex (LNum True (digit_val c)) (cs @ rest) out"
    using cc lex_step_minus_digit [OF dc c0] by simp
  also have "\<dots> = lex (LNum True (foldl (\<lambda>a c. 10 * a + digit_val c) (digit_val c) cs)) rest out"
    using dcs by (rule lex_digits)
  also have "foldl (\<lambda>a c. 10 * a + digit_val c) (digit_val c) cs = n"
    using str_of_nat_value [of n] cc by simp
  finally show ?thesis
    using lex_after_number(1) [OF assms(1), of True n out] by (simp add: signed_def)
qed

lemma lex_int:
  assumes "ends_token rest"
  shows "lex LIdle (str_of_int i @ rest) out = lex LIdle rest (out @ [TInt i])"
proof (cases "i < 0")
  case True
  then have "0 < nat (- i)" by simp
  from lex_neg [OF assms this] True show ?thesis by (simp add: str_of_int_def)
next
  case False
  with lex_nat [OF assms, of "nat i" out] show ?thesis by (simp add: str_of_int_def)
qed

lemma lex_punct:
  "lex LIdle (CHR '','' # CHR '' '' # t) out = lex LIdle t (out @ [TComma])"
  "lex LIdle (CHR '':'' # CHR '' '' # t) out = lex LIdle t (out @ [TColon])"
  "lex LIdle (CHR ''['' # t) out = lex LIdle t (out @ [TLBrack])"
  "lex LIdle (CHR '']'' # t) out = lex LIdle t (out @ [TRBrack])"
  "lex LIdle (CHR ''{'' # t) out = lex LIdle t (out @ [TLBrace])"
  "lex LIdle (CHR ''}'' # t) out = lex LIdle t (out @ [TRBrace])"
  "lex LIdle (''null'' @ t) out = lex LIdle t (out @ [TNull])"
  "lex LIdle (''true'' @ t) out = lex LIdle t (out @ [TTrue])"
  "lex LIdle (''false'' @ t) out = lex LIdle t (out @ [TFalse])"
  by (simp_all add: lex_step_def lex_idle_def bind_def emit_def)

declare lex.simps [simp del]

lemma ends_token_simps:
  "ends_token []" "ends_token (CHR '','' # t)" "ends_token (CHR '']'' # t)" "ends_token (CHR ''}'' # t)"
  by (simp_all add: ends_token_def)

lemma lex_join:
  assumes el: "\<And>x rest out. x \<in> set xs \<Longrightarrow> ends_token rest \<Longrightarrow> lex LIdle (d x @ rest) out = lex LIdle rest (out @ t x)"
    and rest: "ends_token rest"
  shows "lex LIdle (join '', '' (map d xs) @ rest) out = lex LIdle rest (out @ join [TComma] (map t xs))"
  using el
proof (induction xs arbitrary: out)
  case Nil
  then show ?case by simp
next
  case (Cons x xs)
  show ?case
  proof (cases xs)
    case Nil
    with Cons.prems [of x rest out] rest show ?thesis by simp
  next
    case (Cons y ys)
    have "lex LIdle (join '', '' (map d (x # xs)) @ rest) out
        = lex LIdle (d x @ CHR '','' # CHR '' '' # join '', '' (map d xs) @ rest) out"
      using Cons by simp
    also have "\<dots> = lex LIdle (CHR '','' # CHR '' '' # join '', '' (map d xs) @ rest) (out @ t x)"
      by (rule Cons.prems) (simp_all add: ends_token_simps)
    also have "\<dots> = lex LIdle (join '', '' (map d xs) @ rest) (out @ t x @ [TComma])"
      by (simp add: lex_punct)
    also have "\<dots> = lex LIdle rest (out @ t x @ [TComma] @ join [TComma] (map t xs))"
      using Cons.IH [of "out @ t x @ [TComma]"] Cons.prems by simp
    finally show ?thesis using Cons by simp
  qed
qed

lemma lex_json_dumps:
  "ends_token rest \<Longrightarrow> lex LIdle (json_dumps q @ rest) out = lex LIdle rest (out @ toks q)"
proof (induction q arbitrary: rest out)
  case JNull
  then show ?case using lex_punct(7) [of rest out] by simp
next
  case (JBool b)
  then show ?case using lex_punct(8,9) [of rest out] by simp
next
  case (JInt i)
  then show ?case by (simp add: lex_int)
next
  case (JStr s)
  then show ?case by (simp add: lex_encode_str)
next
  case (JArr xs)
  have el: "lex LIdle (json_dumps x @ r) o' = lex LIdle r (o' @ toks x)" if "x \<in> set xs" "ends_token r" for x r o'
    using that JArr by auto
  have "lex LIdle (json_dumps (JArr xs) @ rest) out
      = lex LIdle (join '', '' (map json_dumps xs) @ CHR '']'' # rest) (out @ [TLBrack])"
    by (simp add: lex_punct)
  also have "\<dots> = lex LIdle (CHR '']'' # rest) (out @ [TLBrack] @ join [TComma] (map toks xs))"
    using lex_join [of xs json_dumps toks "CHR '']'' # rest" "out @ [TLBrack]"] el
    by (simp add: ends_token_simps)
  finally show ?case by (simp add: lex_punct)
next
  case (JObj kvs)
  let ?member = "\<lambda>kv. encode_str (fst kv) @ '': '' @ json_dumps (snd kv)"
  let ?tm = "\<lambda>kv. TStr (fst kv) # TColon # toks (snd kv)"
  have el: "lex LIdle (?member kv @ r) o' = lex LIdle r (o' @ ?tm kv)" if "kv \<in> set kvs" "ends_token r" for kv r o'
  proof -
    obtain k v where kv: "kv = (k, v)" by (cases kv)
    with that have "v \<in> Basic_BNFs.snds kv" by simp
    then have ih: "lex LIdle (json_dumps v @ r) (o' @ [TStr k, TColon]) = lex LIdle r ((o' @ [TStr k, TColon]) @ toks v)"
      using JObj.IH that by blast
    have "lex LIdle (?member kv @ r) o' = lex LIdle (CHR '':'' # CHR '' '' # json_dumps v @ r) (o' @ [TStr k])"
      using lex_encode_str [of k] kv by simp
    also have "\<dots> = lex LIdle (json_dumps v @ r) (o' @ [TStr k, TColon])"
      by (simp add: lex_punct)
    finally show ?thesis using ih kv by simp
  qed
  have "lex LIdle (json_dumps (JObj kvs) @ rest) out
      = lex LIdle (join '', '' (map ?member kvs) @ CHR ''}'' # rest) (out @ [TLBrace])"
    by (simp add: lex_punct)
  also have "\<dots> = lex LIdle (CHR ''}'' # rest) (out @ [TLBrace] @ join [TComma] (map ?tm kvs))"
    using lex_join [of kvs ?member ?tm "CHR ''}'' # rest" "out @ [TLBrace]"] el
    by (simp add: ends_token_simps)
  finally show ?case by (simp add: lex_punct)
qed

lemma lex_json_dumps_all: "lex LIdle (json_dumps q) [] = Inr (toks q)"
  using lex_json_dumps [where q = q and rest = "[]" and out = "[]"] by (simp add: ends_token_simps lex.simps)

subsection \<open>The stack machine on the tokens of a payload\<close>

lemma parse_scalar:
  "parse_run WantValue st (TNull # rest) = continue JNull st rest"
  "parse_run WantValue st (TTrue # rest) = continue (JBool True) st rest"
  "parse_run WantValue st (TFalse # rest) = continue (JBool False) st rest"
  "parse_run WantValue st (TInt i # rest) = continue (JInt i) st rest"
  "parse_run WantValue st (TStr s # rest) = continue (JStr s) st rest"
  by (simp_all add: parse_step_def start_value_def continue_def split: option.splits)

lemma toks_hd: "toks q \<noteq> [] \<and> hd (toks q) \<noteq> TRBrack"
  by (cases q) simp_all

lemma parse_value_or_close:
  "ts \<noteq> [] \<Longrightarrow> hd ts \<noteq> TRBrack \<Longrightarrow> parse_run WantValueOrClose st ts = parse_run WantValue st ts"
  by (cases ts) (simp_all add: parse_step_def)

lemma continue_array:
  "continue x (ArrF es # st) rest = parse_run AfterValue (ArrF (es @ [x]) # st) rest"
  by (simp add: continue_def deliver_def)

lemma continue_member:
  "continue x (ObjK ms k # st) rest = parse_run AfterValue (ObjF (dict_set ms k x) # st) rest"
  by (simp add: continue_def deliver_def)

lemma after_value_array:
  "parse_run AfterValue (ArrF es # st) (TRBrack # rest) = continue (JArr es) st rest"
  "parse_run AfterValue (ArrF es # st) (TComma # rest) = parse_run WantValue (ArrF es # st) rest"
  by (simp_all add: parse_step_def close_frame_def continue_def split: option.splits)

lemma after_value_object:
  "parse_run AfterValue (ObjF ms # st) (TRBrace # rest) = continue (JObj ms) st rest"
  "parse_run AfterValue (ObjF ms # st) (TComma # rest) = parse_run WantKey (ObjF ms # st) rest"
  by (simp_all add: parse_step_def close_frame_def continue_def split: option.splits)

lemma key_colon:
  "parse_run WantKey (ObjF ms # st) (TStr k # TColon # rest) = parse_run WantValue (ObjK ms k # st) rest"
  "parse_run WantKeyOrClose (ObjF ms # st) (TStr k # TColon # rest) = parse_run WantValue (ObjK ms k # st) rest"
  by (simp_all add: parse_step_def take_key_def)

lemma open_close:
  "parse_run WantValue st (TLBrack # rest) = parse_run WantValueOrClose (ArrF [] # st) rest"
  "parse_run WantValue st (TLBrace # rest) = parse_run WantKeyOrClose (ObjF [] # st) rest"
  "parse_run WantValueOrClose (ArrF [] # st) (TRBrack # rest) = continue (JArr []) st rest"
  "parse_run WantKeyOrClose (ObjF [] # st) (TRBrace # rest) = continue (JObj []) st rest"
  by (simp_all add: parse_step_def start_value_def close_frame_def continue_def split: option.splits)

declare parse_run.simps [simp del]

lemma dict_set_new: "k \<notin> fst ` set ms \<Longrightarrow> dict_set ms k v = ms @ [(k, v)]"
  by (induction ms) auto

lemma parse_elements:
  assumes el: "\<And>x st rest. x \<in> set xs \<Longrightarrow> parse_run WantValue st (toks x @ rest) = continue x st rest"
    and ne: "xs \<noteq> []"
  shows "parse_run WantValue (ArrF es # st) (join [TComma] (map toks xs) @ TRBrack # rest)
      = continue (JArr (es @ xs)) st rest"
  using el ne
proof (induction xs arbitrary: es)
  case Nil
  then show ?case by simp
next
  case (Cons x xs)
  show ?case
  proof (cases xs)
    case Nil
    have "parse_run WantValue (ArrF es # st) (toks x @ TRBrack # rest) = continue x (ArrF es # st) (TRBrack # rest)"
      by (rule Cons.prems(1)) simp
    then show ?thesis
      using Nil by (simp add: continue_array after_value_array)
  next
    case (Cons y ys)
    have "parse_run WantValue (ArrF es # st) (toks x @ TComma # join [TComma] (map toks xs) @ TRBrack # rest)
        = continue x (ArrF es # st) (TComma # join [TComma] (map toks xs) @ TRBrack # rest)"
      by (rule Cons.prems(1)) simp
    also have "\<dots> = parse_run WantValue (ArrF (es @ [x]) # st) (join [TComma] (map toks xs) @ TRBrack # rest)"
      by (simp add: continue_array after_value_array)
    also have "\<dots> = continue (JArr ((es @ [x]) @ xs)) st rest"
      using Cons.IH [of "es @ [x]"] Cons.prems(1) Cons by simp
    finally show ?thesis using Cons by simp
  qed
qed

lemma parse_members:
  assumes el: "\<And>kv st rest. kv \<in> set kvs \<Longrightarrow> parse_run WantValue st (toks (snd kv) @ rest) = continue (snd kv) st rest"
    and ne: "kvs \<noteq> []"
    and di: "distinct (map fst (ms @ kvs))"
    and mode: "mode = WantKey \<or> mode = WantKeyOrClose"
  shows "parse_run mode (ObjF ms # st)
       (join [TComma] (map (\<lambda>kv. TStr (fst kv) # TColon # toks (snd kv)) kvs) @ TRBrace # rest)
      = continue (JObj (ms @ kvs)) st rest"
  using el ne di mode
proof (induction kvs arbitrary: ms mode)
  case Nil
  then show ?case by simp
next
  case (Cons kv kvs)
  obtain k v where kv: "kv = (k, v)" by (cases kv)
  let ?tm = "\<lambda>kv. TStr (fst kv) # TColon # toks (snd kv)"
  from Cons.prems(3) kv have fresh: "k \<notin> fst ` set ms" by auto
  have val: "parse_run WantValue s (toks v @ r) = continue v s r" for s r
    using Cons.prems(1) [of kv s r] kv by simp
  have start: "parse_run mode (ObjF ms # st) (TStr k # TColon # toks v @ r)
      = parse_run AfterValue (ObjF (ms @ [(k, v)]) # st) r" for r
    using Cons.prems(4) val [of "ObjK ms k # st" r]
    by (auto simp: key_colon continue_member dict_set_new [OF fresh])
  show ?case
  proof (cases kvs)
    case Nil
    then show ?thesis
      using start [of "TRBrace # rest"] kv by (simp add: after_value_object)
  next
    case (Cons kv' kvs')
    have di': "distinct (map fst ((ms @ [(k, v)]) @ kvs))"
      using Cons.prems(3) kv by simp
    have "parse_run mode (ObjF ms # st) (join [TComma] (map ?tm (kv # kvs)) @ TRBrace # rest)
        = parse_run AfterValue (ObjF (ms @ [(k, v)]) # st) (TComma # join [TComma] (map ?tm kvs) @ TRBrace # rest)"
      using start [of "TComma # join [TComma] (map ?tm kvs) @ TRBrace # rest"] kv Cons by simp
    also have "\<dots> = parse_run WantKey (ObjF (ms @ [(k, v)]) # st) (join [TComma] (map ?tm kvs) @ TRBrace # rest)"
      by (simp add: after_value_object)
    also have "\<dots> = continue (JObj ((ms @ [(k, v)]) @ kvs)) st rest"
      using Cons.IH [of "ms @ [(k, v)]" WantKey] Cons.prems(1) Cons di' by simp
    finally show ?thesis using kv by simp
  qed
qed

lemma parse_toks:
  "distinct_keys q \<Longrightarrow> parse_run WantValue st (toks q @ rest) = continue q st rest"
proof (induction q arbitrary: st rest)
  case JNull
  then show ?case by (simp add: parse_scalar)
next
  case (JBool b)
  then show ?case by (simp add: parse_scalar)
next
  case (JInt i)
  then show ?case by (simp add: parse_scalar)
next
  case (JStr s)
  then show ?case by (simp add: parse_scalar)
next
  case (JArr xs)
  show ?case
  proof (cases "xs = []")
    case True
    then show ?thesis by (simp add: open_close)
  next
    case False
    have el: "parse_run WantValue s (toks x @ r) = continue x s r" if "x \<in> set xs" for x s r
      using that JArr by (auto simp: list_all_iff)
    from False obtain x xs' where xs: "xs = x # xs'" by (cases xs) simp_all
    have hd: "join [TComma] (map toks xs) @ TRBrack # rest \<noteq> []
        \<and> hd (join [TComma] (map toks xs) @ TRBrack # rest) \<noteq> TRBrack"
      using toks_hd [of x] xs by (cases xs'; cases "toks x") simp_all
    have "parse_run WantValue st (toks (JArr xs) @ rest)
        = parse_run WantValueOrClose (ArrF [] # st) (join [TComma] (map toks xs) @ TRBrack # rest)"
      by (simp add: open_close)
    also have "\<dots> = parse_run WantValue (ArrF [] # st) (join [TComma] (map toks xs) @ TRBrack # rest)"
      using hd by (simp add: parse_value_or_close)
    also have "\<dots> = continue (JArr ([] @ xs)) st rest"
      using el False by (intro parse_elements) simp_all
    finally show ?thesis by simp
  qed
next
  case (JObj kvs)
  show ?case
  proof (cases "kvs = []")
    case True
    then show ?thesis by (simp add: open_close)
  next
    case False
    have el: "parse_run WantValue s (toks (snd kv) @ r) = continue (snd kv) s r" if "kv \<in> set kvs" for kv s r
    proof -
      have "snd kv \<in> Basic_BNFs.snds kv" by (cases kv) simp
      moreover have "distinct_keys (snd kv)"
        using that JObj.prems by (auto simp: list_all_iff)
      ultimately show ?thesis using JObj.IH that by blast
    qed
    have "parse_run WantValue st (toks (JObj kvs) @ rest)
        = parse_run WantKeyOrClose (ObjF [] # st)
            (join [TComma] (map (\<lambda>kv. TStr (fst kv) # TColon # toks (snd kv)) kvs) @ TRBrace # rest)"
      by (simp add: open_close)
    also have "\<dots> = continue (JObj ([] @ kvs)) st rest"
      using el False JObj.prems by (intro parse_members) simp_all
    finally show ?thesis by simp
  qed
qed

text \<open>What \<^verbatim>\<open>json.dumps\<close> writes, \<^verbatim>\<open>json.loads\<close> reads back.\<close>

lemma json_loads_dumps:
  assumes "distinct_keys q"
  shows "json_loads (json_dumps q) = Inr q"
proof -
  have "json_loads (json_dumps q) = parse_run WantValue [] (toks q @ [])"
    using lex_json_dumps_all [of q] by (simp add: json_loads_def bind_def)
  also have "\<dots> = continue q [] []"
    using assms by (rule parse_toks)
  also have "\<dots> = Inr q"
    by (simp add: continue_def deliver_def parse_run.simps)
  finally show ?thesis .
qed

subsection \<open>The payload after a rewrite\<close>

lemma strings_of_map_strings: "strings_of (map_strings g q) = g ` strings_of q"
proof (induction q)
  case (JArr xs)
  then show ?case by auto
next
  case (JObj kvs)
  have "strings_of (map_strings g (snd kv)) = g ` strings_of (snd kv)" if "kv \<in> set kvs" for kv
    using JObj that by (cases kv) auto
  then show ?case by (auto simp: image_Un image_UN image_image)
qed simp_all

lemma distinct_keys_map:
  "distinct_keys q \<Longrightarrow> inj_on g (strings_of q) \<Longrightarrow> distinct_keys (map_strings g q)"
proof (induction q)
  case (JArr xs)
  have "distinct_keys (map_strings g x)" if "x \<in> set xs" for x
  proof -
    have "strings_of x \<subseteq> strings_of (JArr xs)" using that by auto
    with JArr.prems(2) have "inj_on g (strings_of x)" by (rule inj_on_subset)
    with JArr that show ?thesis by (auto simp: list_all_iff)
  qed
  then show ?case by (simp add: list_all_iff)
next
  case (JObj kvs)
  have vals: "distinct_keys (map_strings g (snd kv))" if "kv \<in> set kvs" for kv
  proof -
    have "strings_of (snd kv) \<subseteq> strings_of (JObj kvs)" using that by auto
    with JObj.prems(2) have "inj_on g (strings_of (snd kv))" by (rule inj_on_subset)
    moreover have "snd kv \<in> Basic_BNFs.snds kv" by (cases kv) simp
    moreover have "distinct_keys (snd kv)" using that JObj.prems(1) by (auto simp: list_all_iff)
    ultimately show ?thesis using JObj.IH that by blast
  qed
  have "set (map fst kvs) \<subseteq> strings_of (JObj kvs)" by auto
  with JObj.prems(2) have "inj_on g (set (map fst kvs))" by (rule inj_on_subset)
  moreover have "distinct (map fst kvs)" using JObj.prems(1) by simp
  ultimately have "distinct (map g (map fst kvs))" by (metis distinct_map)
  then show ?case using vals by (simp add: list_all_iff comp_def)
qed simp_all

subsection \<open>The round trip\<close>

lemma ids_present_ids: "ids_present p = ids (json_dumps p)"
  by (simp add: ids_present_def ids_def)

text \<open>
  C2, as the code has it. The mapping \<open>m\<close> is one-to-one between ids of the id
  shape, no match of the id pattern in the serialized payload begins inside an escape
  sequence, and every id present in the payload that is a key of \<open>m\<close> is also a value
  of \<open>m\<close> (so it is when \<open>m\<close> permutes the ids present). Then rewriting the payload
  with the inverse mapping succeeds, and rewriting the result with \<open>m\<close> gives the
  payload back. The keys of a dict are distinct, as they are in Python.
\<close>

theorem update_ids_round_trip:
  assumes dk: "distinct_keys p"
    and safe: "safe_strings p"
    and keys: "distinct (map fst m)"
    and inj: "distinct (map snd m)"
    and shaped: "\<forall>kv \<in> set m. uuid_shape (fst kv) \<and> uuid_shape (snd kv)"
    and closed: "\<forall>u \<in> ids_present p. u \<in> fst ` set m \<longrightarrow> u \<in> snd ` set m"
  shows "bind (update_ids (inverse_mapping m) p) (update_ids m) = Inr p"
proof -
  let ?g = "re_sub_uuid (replace_id (inverse_mapping m))"
  let ?h = "re_sub_uuid (replace_id m)"
  let ?p' = "map_strings ?g p"
  have ks_g: "keeps_shape (replace_id (inverse_mapping m))"
    using shaped by (intro replace_id_keeps_shape) (auto simp: inverse_mapping_def)
  have whole: "?h (?g (json_dumps p)) = json_dumps p"
    using keys shaped closed by (intro re_sub_uuid_inverse) (simp_all add: ids_present_def)
  have restore: "?h (?g s) = s" if "s \<in> strings_of p" for s
  proof -
    have "ids s \<subseteq> ids_present p"
      using ids_json_dumps [OF safe that] by (simp add: ids_present_ids)
    with closed have "\<forall>u \<in> set (ids_of (uuid_scan s)). u \<in> fst ` set m \<longrightarrow> u \<in> snd ` set m"
      by (auto simp: ids_def)
    with keys shaped show ?thesis by (intro re_sub_uuid_inverse)
  qed
  then have "inj_on ?g (strings_of p)"
    by (rule inj_on_inverseI)
  with dk have dk': "distinct_keys ?p'" by (rule distinct_keys_map)
  have d1: "?g (json_dumps p) = json_dumps ?p'"
    using ks_g safe by (rule sub_json_dumps)
  have first: "update_ids (inverse_mapping m) p = Inr ?p'"
    using json_loads_dumps [OF dk'] by (simp add: update_ids_def d1)
  have "update_ids m ?p' = json_loads (?h (?g (json_dumps p)))"
    by (simp add: update_ids_def d1)
  also have "\<dots> = Inr p"
    using json_loads_dumps [OF dk] by (simp only: whole)
  finally show ?thesis
    using first by (simp add: bind_def)
qed

text \<open>
  An instance with a string that holds a line feed, a tab, the letter U+00E9, a double
  quote, a backslash and a backspace, all of them written as escape sequences.
\<close>

lemma sample_payload_facts:
  "distinct_keys sample_payload"
  "safe_strings sample_payload"
  "ids_present sample_payload = {id_a, id_b}"
  "uuid_shape id_a" "uuid_shape id_b"
  by code_simp+

theorem update_ids_round_trip_witness:
  "distinct_keys sample_payload
   \<and> safe_strings sample_payload
   \<and> ids_present sample_payload = {id_a, id_b}
   \<and> uuid_shape id_a \<and> uuid_shape id_b \<and> id_a \<noteq> id_b
   \<and> bind (update_ids (inverse_mapping [(id_a, id_b), (id_b, id_a)]) sample_payload)
        (update_ids [(id_a, id_b), (id_b, id_a)]) = Inr sample_payload"
proof -
  have ne: "id_a \<noteq> id_b" by (simp add: id_a_def id_b_def)
  have "bind (update_ids (inverse_mapping [(id_a, id_b), (id_b, id_a)]) sample_payload)
        (update_ids [(id_a, id_b), (id_b, id_a)]) = Inr sample_payload"
    using update_ids_round_trip [of sample_payload "[(id_a, id_b), (id_b, id_a)]"] sample_payload_facts ne
    by simp
  with sample_payload_facts ne show ?thesis by simp
qed

text \<open>
  The claim as it is written fails in two ways.

  An id of the payload is a key of the mapping and not a value of it. The mapping
  \<^verbatim>\<open>{a: b}\<close> is one-to-one, and on the ids present in \<^verbatim>\<open>{"ref": a}\<close> (that is, on \<^verbatim>\<open>a\<close>) it
  is a bijection onto its image; rewriting with the inverse \<^verbatim>\<open>{b: a}\<close> changes nothing,
  and rewriting with the mapping then gives \<^verbatim>\<open>{"ref": b}\<close>.

  A match begins inside an escape sequence. The payload is a list of two strings, a
  backspace followed by \<^verbatim>\<open>1111111-1111-1111-1111-111111111111\<close>, and the id \<^verbatim>\<open>a\<close>. The
  backspace is serialized as \<^verbatim>\<open>\b\<close>, so the ids present in the serialized payload are
  \<^verbatim>\<open>c = b1111111-1111-1111-1111-111111111111\<close> and \<^verbatim>\<open>a\<close>. The mapping \<^verbatim>\<open>{c: a, a: c}\<close>
  permutes them, and so does its inverse. Rewriting with the inverse puts \<^verbatim>\<open>a\<close> after
  the backslash: the text is no JSON any more, and \<^verbatim>\<open>json.loads\<close> raises.
\<close>

lemma small_payload_rewrites:
  "update_ids (inverse_mapping [(id_a, id_b)]) small_payload = Inr small_payload"
  "update_ids [(id_a, id_b)] small_payload = Inr (JObj [(''ref'', JStr id_b)])"
  "ids_present small_payload = {id_a}"
  by code_simp+

lemma escaped_payload_rewrites:
  "ids_present escaped_payload = {id_c, id_a}"
  "update_ids (inverse_mapping [(id_c, id_a), (id_a, id_c)]) escaped_payload = Inl JSONDecodeError"
  "\<not> safe_strings escaped_payload"
  by code_simp+

theorem update_ids_round_trip_counterexample:
  "ids_present small_payload = {id_a}
   \<and> bind (update_ids (inverse_mapping [(id_a, id_b)]) small_payload) (update_ids [(id_a, id_b)])
       = Inr (JObj [(''ref'', JStr id_b)])
   \<and> bind (update_ids (inverse_mapping [(id_a, id_b)]) small_payload) (update_ids [(id_a, id_b)])
       \<noteq> Inr small_payload
   \<and> ids_present escaped_payload = {id_c, id_a}
   \<and> bind (update_ids (inverse_mapping [(id_c, id_a), (id_a, id_c)]) escaped_payload)
       (update_ids [(id_c, id_a), (id_a, id_c)]) = Inl JSONDecodeError"
  using small_payload_rewrites escaped_payload_rewrites
  by (simp add: bind_def small_payload_def id_a_def id_b_def)

end
